theory Spec2Isabelle
  imports Main "HOL-Library.AList"
begin

section \<open>Feature-model analysis (fm-backend/server.py)\<close>

text \<open>
  A shallow embedding of class \<open>FeatureModel\<close>: the feature tree and its parser, the
  variable registry, the CNF compiler, the enumeration of minimal products and the
  selection validator. Python strings are byte lists, Python integers are \<open>int\<close>,
  the attributes of the object are the fields of the record \<open>fm\<close>, and every method
  takes the object and returns it updated.
\<close>

subsection \<open>Strings\<close>

text \<open>The non-ASCII symbols of the rule log, as UTF-8.\<close>

definition arrow :: string where
  "arrow = [CHR 0xE2, CHR 0x86, CHR 0x92]"

definition vee :: string where
  "vee = [CHR 0xE2, CHR 0x88, CHR 0xA8]"

definition wedge :: string where
  "wedge = [CHR 0xE2, CHR 0x88, CHR 0xA7]"

definition neg_sign :: string where
  "neg_sign = [CHR 0xC2, CHR 0xAC]"

text \<open>\<open>sep.join(xs)\<close>\<close>

fun join :: "string \<Rightarrow> string list \<Rightarrow> string" where
  "join sep [] = []"
| "join sep [x] = x"
| "join sep (x # y # ys) = x @ sep @ join sep (y # ys)"

text \<open>\<open>s.startswith(sub)\<close> and the substring test \<open>sub in s\<close>.\<close>

fun startswith :: "string \<Rightarrow> string \<Rightarrow> bool" where
  "startswith s [] = True"
| "startswith [] (c # sub) = False"
| "startswith (d # s) (c # sub) = (d = c \<and> startswith s sub)"

fun contains :: "string \<Rightarrow> string \<Rightarrow> bool" where
  "contains [] sub = (sub = [])"
| "contains (c # s) sub = (startswith (c # s) sub \<or> contains s sub)"

text \<open>
  \<open>str.lower\<close> and \<open>str.upper\<close> on the ASCII letters; other bytes are kept. The
  source only compares the results with \<open>"true"\<close>, \<open>"XOR"\<close> and \<open>"OR"\<close>.
\<close>

definition lower_char :: "char \<Rightarrow> char" where
  "lower_char c =
     (let n = (of_char c :: nat) in if 65 \<le> n \<and> n \<le> 90 then char_of (n + 32) else c)"

definition upper_char :: "char \<Rightarrow> char" where
  "upper_char c =
     (let n = (of_char c :: nat) in if 97 \<le> n \<and> n \<le> 122 then char_of (n - 32) else c)"

definition lower :: "string \<Rightarrow> string" where
  "lower s = map lower_char s"

definition upper :: "string \<Rightarrow> string" where
  "upper s = map upper_char s"

subsection \<open>The data model\<close>

text \<open>
  A feature is the dict built by \<open>parse_feature\<close>: its keys are the selectors.
  \<open>parent\<close> is \<open>None\<close> for the root, \<open>group\<close> is \<open>None\<close> or the upper-cased type.
\<close>

datatype feature =
  Feature (name: string) (mandatory: bool) (parent: "string option")
          (children: "feature list") (group: "string option")

record constraint =
  englishStatement :: string
  ctype :: string

type_synonym clause = "int list"

text \<open>
  The attributes of a \<open>FeatureModel\<close>. \<open>features\<close> is a dict in insertion order
  (\<open>AList.update\<close> overwrites in place and appends a new key, as Python does);
  \<open>root\<close> is unset until \<open>parse_xml\<close> has succeeded once.
\<close>

record fm =
  features :: "(string \<times> feature) list"
  constraints :: "constraint list"
  var_map :: "string \<rightharpoonup> int"
  reverse_map :: "int \<rightharpoonup> string"
  next_var :: int
  logic_rules :: "string list"
  root :: "feature option"

datatype error = KeyError string | AttributeError | TypeError

definition init :: fm where
  "init = \<lparr>features = [], constraints = [], var_map = Map.empty, reverse_map = Map.empty,
            next_var = 1, logic_rules = [], root = None\<rparr>"

subsection \<open>The variable registry\<close>

definition get_var :: "fm \<Rightarrow> string \<Rightarrow> int \<times> fm" where
  "get_var st nm =
     (case var_map st nm of
        Some v \<Rightarrow> (v, st)
      | None \<Rightarrow>
          (next_var st,
           st\<lparr>var_map := (var_map st)(nm \<mapsto> next_var st),
              reverse_map := (reverse_map st)(next_var st \<mapsto> nm),
              next_var := next_var st + 1\<rparr>))"

definition get_name :: "fm \<Rightarrow> int \<Rightarrow> string option" where
  "get_name st var = reverse_map st (abs var)"

text \<open>\<open>[self.get_var(n) for n in names]\<close>, left to right.\<close>

fun get_vars :: "fm \<Rightarrow> string list \<Rightarrow> int list \<times> fm" where
  "get_vars st [] = ([], st)"
| "get_vars st (n # ns) =
     (let (v, st1) = get_var st n; (vs, st2) = get_vars st1 ns in (v # vs, st2))"

subsection \<open>The CNF compiler\<close>

definition add_rule :: "fm \<Rightarrow> string \<Rightarrow> fm" where
  "add_rule st rule = st\<lparr>logic_rules := logic_rules st @ [rule]\<rparr>"

text \<open>Python's truth value of \<open>feature["parent"]\<close>: \<open>None\<close> and \<open>""\<close> are false.\<close>

definition truthy :: "string option \<Rightarrow> bool" where
  "truthy p = (case p of None \<Rightarrow> False | Some s \<Rightarrow> s \<noteq> [])"

text \<open>\<open>itertools.combinations(xs, 2)\<close>\<close>

fun combinations2 :: "'a list \<Rightarrow> ('a \<times> 'a) list" where
  "combinations2 [] = []"
| "combinations2 (x # xs) = map (Pair x) xs @ combinations2 xs"

text \<open>
  The sections of \<open>process_feature\<close>, in the order of the source; each takes the object
  and the clause list \<open>cnf\<close> and returns both.
\<close>

definition root_section :: "fm \<times> clause list \<Rightarrow> feature \<Rightarrow> int \<Rightarrow> fm \<times> clause list" where
  "root_section acc f var =
     (case acc of (st, cnf) \<Rightarrow>
        if \<not> truthy (parent f) then (add_rule st (name f), cnf @ [[var]]) else (st, cnf))"

definition parent_child_section ::
    "fm \<times> clause list \<Rightarrow> feature \<Rightarrow> int \<Rightarrow> fm \<times> clause list" where
  "parent_child_section acc f var =
     (case acc of (st, cnf) \<Rightarrow>
        if truthy (parent f) then
          (let p = the (parent f); (parent_var, st1) = get_var st p in
             if mandatory f then
               (add_rule (add_rule st1 (p @ '' '' @ arrow @ '' '' @ name f))
                         (name f @ '' '' @ arrow @ '' '' @ p),
                cnf @ [[- parent_var, var], [- var, parent_var]])
             else
               (add_rule st1 (name f @ '' '' @ arrow @ '' '' @ p), cnf @ [[- var, parent_var]]))
        else (st, cnf))"

definition exclusion_step :: "string \<times> string \<Rightarrow> fm \<times> clause list \<Rightarrow> fm \<times> clause list" where
  "exclusion_step pr acc =
     (case (pr, acc) of ((c1, c2), (st, cnf)) \<Rightarrow>
        (let st1 = add_rule st (neg_sign @ ''('' @ c1 @ '' '' @ wedge @ '' '' @ c2 @ '')'');
             (v1, st2) = get_var st1 c1;
             (v2, st3) = get_var st2 c2
         in (st3, cnf @ [[- v1, - v2]])))"

definition group_section :: "fm \<times> clause list \<Rightarrow> feature \<Rightarrow> int \<Rightarrow> fm \<times> clause list" where
  "group_section acc f var =
     (case acc of (st, cnf) \<Rightarrow>
        if group f = Some ''XOR'' then
          (let (child_vars, st1) = get_vars st (map name (children f));
               child_names = map name (children f);
               st2 = add_rule st1
                       (name f @ '' '' @ arrow @ '' ('' @ join ('' '' @ vee @ '' '') child_names @ '')'')
           in fold exclusion_step (combinations2 child_names) (st2, cnf @ [(- var) # child_vars]))
        else if group f = Some ''OR'' then
          (let child_names = map name (children f);
               (child_vars, st1) = get_vars st child_names;
               st2 = add_rule st1
                       (name f @ '' '' @ arrow @ '' ('' @ join ('' '' @ vee @ '' '') child_names @ '')'')
           in (st2, cnf @ [(- var) # child_vars]))
        else (st, cnf))"

fun process_feature :: "fm \<times> clause list \<Rightarrow> feature \<Rightarrow> fm \<times> clause list" where
  "process_feature acc (Feature nm mand par chs grp) =
     (let f = Feature nm mand par chs grp;
          (var, st1) = get_var (fst acc) nm;
          acc1 = root_section (st1, snd acc) f var;
          acc2 = parent_child_section acc1 f var;
          acc3 = group_section acc2 f var
      in fold (\<lambda>child a. process_feature a child) chs acc3)"

text \<open>The loop over \<open>self.constraints\<close> at the end of \<open>generate_rules_and_cnf\<close>.\<close>

definition constraint_step :: "constraint \<Rightarrow> fm \<times> clause list \<Rightarrow> fm \<times> clause list" where
  "constraint_step c acc =
     (case acc of (st, cnf) \<Rightarrow>
        if ctype c = ''requires'' then
          if contains (englishStatement c) ''filter'' then
            (let st1 = add_rule st (''Location '' @ arrow @ '' ByLocation'');
                 (v1, st2) = get_var st1 ''ByLocation'';
                 (v2, st3) = get_var st2 ''Location''
             in (st3, cnf @ [[- v1, v2]]))
          else (st, cnf)
        else (st, cnf))"

text \<open>
  \<open>generate_rules_and_cnf\<close>: reading \<open>self.root\<close> before any successful \<open>parse_xml\<close>
  raises AttributeError, after the rule log has been reset.
\<close>

definition generate_rules_and_cnf :: "fm \<Rightarrow> (error \<times> fm) + (fm \<times> clause list)" where
  "generate_rules_and_cnf st =
     (let st0 = st\<lparr>logic_rules := []\<rparr> in
        case root st0 of
          None \<Rightarrow> Inl (AttributeError, st0)
        | Some r \<Rightarrow> Inr (fold constraint_step (constraints st0) (process_feature (st0, []) r)))"

subsection \<open>The minimality filter\<close>

text \<open>A product is a Python set of names; \<open>get_name\<close> may return \<open>None\<close>.\<close>

type_synonym product = "string option set"

definition filter_minimal_mwps :: "'a set list \<Rightarrow> 'a set list" where
  "filter_minimal_mwps mwps =
     filter (\<lambda>mwp. \<not> list_ex (\<lambda>other. other \<noteq> mwp \<and> other \<subseteq> mwp) mwps) mwps"

subsection \<open>The SAT oracle\<close>

text \<open>
  The solver (\<open>Glucose3\<close>) is not part of the program. It is a parameter: a function from
  the clauses added so far to the result of \<open>solve()\<close>, \<open>None\<close> for unsatisfiable and
  otherwise the list \<open>get_model()\<close> returns, one literal \<open>i\<close> or \<open>-i\<close> for each of the
  solver's variables \<open>1..n\<close>, where \<open>n\<close> is the largest variable of an added clause.
\<close>

type_synonym solver = "clause list \<Rightarrow> int list option"

definition nvars :: "clause list \<Rightarrow> nat" where
  "nvars cs = nat (fold max (map abs (concat cs)) 0)"

text \<open>A full assignment of the variables \<open>1..n\<close>: position \<open>i\<close> holds \<open>i\<close> or \<open>-i\<close>.\<close>

definition is_model :: "nat \<Rightarrow> int list \<Rightarrow> bool" where
  "is_model n m = (map abs m = map int [1..<Suc n])"

text \<open>A model list satisfies a clause when it holds one of the clause's literals.\<close>

definition sat_by :: "int list \<Rightarrow> clause list \<Rightarrow> bool" where
  "sat_by m cs = list_all (\<lambda>c. list_ex (\<lambda>l. l \<in> set m) c) cs"

text \<open>Satisfiability proper: some assignment of the variables makes every clause true.\<close>

definition lit_true :: "(int \<Rightarrow> bool) \<Rightarrow> int \<Rightarrow> bool" where
  "lit_true a l = ((0 < l \<and> a l) \<or> (l < 0 \<and> \<not> a (- l)))"

definition satisfies :: "(int \<Rightarrow> bool) \<Rightarrow> clause list \<Rightarrow> bool" where
  "satisfies a cs = (\<forall>c \<in> set cs. \<exists>l \<in> set c. lit_true a l)"

definition satisfiable :: "clause list \<Rightarrow> bool" where
  "satisfiable cs = (\<exists>a. satisfies a cs)"

definition oracle_ok :: "solver \<Rightarrow> bool" where
  "oracle_ok solve =
     (\<forall>cs. case solve cs of
             None \<Rightarrow> \<not> satisfiable cs
           | Some m \<Rightarrow> is_model (nvars cs) m \<and> sat_by m cs)"

text \<open>A reference oracle: the first satisfying assignment in a fixed enumeration.\<close>

fun all_models :: "nat \<Rightarrow> int list list" where
  "all_models 0 = [[]]"
| "all_models (Suc n) =
     concat (map (\<lambda>m. [m @ [- int (Suc n)], m @ [int (Suc n)]]) (all_models n))"

definition brute_solve :: solver where
  "brute_solve cs = find (\<lambda>m. sat_by m cs) (all_models (nvars cs))"

subsection \<open>The enumeration of minimal products\<close>

definition is_valid_mwp :: "fm \<Rightarrow> product \<Rightarrow> bool" where
  "is_valid_mwp st mwp =
     list_all (\<lambda>(nm, f). \<not> (mandatory f \<and> parent f \<in> mwp \<and> Some nm \<notin> mwp)) (features st)"

definition candidate :: "fm \<Rightarrow> int list \<Rightarrow> product" where
  "candidate st model = set (map (get_name st) (filter (\<lambda>var. 0 < var) model))"

definition blocking_clause :: "int list \<Rightarrow> clause" where
  "blocking_clause model = map uminus (filter (\<lambda>var. 0 < var) model)"

text \<open>
  The \<open>while solver.solve()\<close> loop of \<open>find_mwps\<close>; \<open>clauses\<close> is what the solver has been
  given, \<open>mwps\<close> the accepted candidates. A run that never leaves the loop is \<open>None\<close>.
\<close>

partial_function (option) solve_loop ::
    "solver \<Rightarrow> fm \<Rightarrow> clause list \<Rightarrow> product list \<Rightarrow> product list option" where
  "solve_loop solve st clauses mwps =
     (case solve clauses of
        None \<Rightarrow> Some mwps
      | Some model \<Rightarrow>
          solve_loop solve st (clauses @ [blocking_clause model])
            (if is_valid_mwp st (candidate st model) then mwps @ [candidate st model] else mwps))"

definition find_mwps :: "solver \<Rightarrow> fm \<Rightarrow> ((error \<times> fm) + (fm \<times> product list)) option" where
  "find_mwps solve st =
     (case generate_rules_and_cnf st of
        Inl e \<Rightarrow> Some (Inl e)
      | Inr (st1, cnf) \<Rightarrow>
          map_option (\<lambda>mwps. Inr (st1, filter_minimal_mwps mwps)) (solve_loop solve st1 cnf []))"

subsection \<open>The selection validator\<close>

record validation =
  isValid :: bool
  messages :: "string list"

fun check_feature :: "product \<Rightarrow> feature \<Rightarrow> string list \<Rightarrow> string list" where
  "check_feature selected (Feature nm mand par chs grp) msgs =
     (let msgs1 =
            (if mand \<and> par \<in> selected \<and> Some nm \<notin> selected
             then msgs @ [''Missing mandatory feature: '' @ nm] else msgs);
          selected_children = filter (\<lambda>c. Some c \<in> selected) (map name chs);
          msgs2 =
            (if Some nm \<in> selected then
               if grp = Some ''XOR'' then
                 (if length selected_children \<noteq> 1
                  then msgs1 @ [''XOR group '' @ nm @ '' must have exactly one selection'']
                  else msgs1)
               else if grp = Some ''OR'' then
                 (if selected_children = []
                  then msgs1 @ [''OR group '' @ nm @ '' must have at least one selection'']
                  else msgs1)
               else msgs1
             else msgs1)
      in fold (\<lambda>child a. check_feature selected child a) chs msgs2)"

definition get_violation_messages :: "fm \<Rightarrow> product \<Rightarrow> (error \<times> fm) + string list" where
  "get_violation_messages st selected =
     (case root st of
        None \<Rightarrow> Inl (AttributeError, st)
      | Some r \<Rightarrow>
          (let msgs = check_feature selected r [] in
             Inr (if Some ''ByLocation'' \<in> selected \<and> Some ''Location'' \<notin> selected
                  then msgs @ [''Location feature is required for ByLocation'']
                  else msgs)))"

text \<open>The loop \<open>for name in self.features\<close> that adds the unit clauses of the selection.\<close>

definition selection_step :: "product \<Rightarrow> string \<Rightarrow> fm \<times> clause list \<Rightarrow> fm \<times> clause list" where
  "selection_step selected nm acc =
     (case acc of (st, clauses) \<Rightarrow>
        (let (var, st1) = get_var st nm in
           if Some nm \<in> selected then (st1, clauses @ [[var]]) else (st1, clauses @ [[- var]])))"

definition validate_selection ::
    "solver \<Rightarrow> fm \<Rightarrow> product \<Rightarrow> (error \<times> fm) + (fm \<times> validation)" where
  "validate_selection solve st selected =
     (case generate_rules_and_cnf st of
        Inl e \<Rightarrow> Inl e
      | Inr (st1, cnf) \<Rightarrow>
          (case fold (selection_step selected) (map fst (features st1)) (st1, cnf) of
             (st2, clauses) \<Rightarrow>
               (let is_valid = (solve clauses \<noteq> None) in
                  if \<not> is_valid then
                    (case get_violation_messages st2 selected of
                       Inl e \<Rightarrow> Inl e
                     | Inr msgs \<Rightarrow> Inr (st2, \<lparr>isValid = is_valid, messages = msgs\<rparr>))
                  else Inr (st2, \<lparr>isValid = is_valid, messages = []\<rparr>))))"

subsection \<open>Parsing\<close>

text \<open>
  An element of the document as \<open>xml.etree.ElementTree\<close> delivers it: tag, attributes,
  text (\<open>elem_text\<close>, \<open>None\<close> for an element without text) and child elements. \<open>ET.parse\<close> itself
  is outside the program.
\<close>

datatype element =
  Element (tag: string) (attrib: "(string \<times> string) list") (elem_text: "string option")
          (kids: "element list")

text \<open>\<open>root.findall(".//constraint")\<close> ranges over all proper descendants, in document order.\<close>

fun descendants :: "element \<Rightarrow> element list" where
  "descendants (Element t a x ks) = concat (map (\<lambda>k. k # descendants k) ks)"

lemma size_find_kid:
  "find P ks = Some g \<Longrightarrow> size_list size (kids g) < size_list size ks"
  by (induction ks) (auto split: if_splits, case_tac g, simp)

lemma size_filter_kids: "size_list size (filter P ks) \<le> size_list size ks"
  by (induction ks) auto

function parse_feature :: "fm \<Rightarrow> element \<Rightarrow> string option \<Rightarrow> (error \<times> fm) + (feature \<times> fm)"
  and parse_children ::
    "fm \<Rightarrow> element list \<Rightarrow> string \<Rightarrow> feature list \<Rightarrow> (error \<times> fm) + (feature list \<times> fm)"
where
  "parse_feature st e par =
     (case map_of (attrib e) ''name'' of
        None \<Rightarrow> Inl (KeyError ''name'', st)
      | Some nm \<Rightarrow>
          (let mand = (lower (case map_of (attrib e) ''mandatory'' of
                                None \<Rightarrow> ''false'' | Some v \<Rightarrow> v) = ''true'') in
             case find (\<lambda>k. tag k = ''group'') (kids e) of
               Some g \<Rightarrow>
                 (case map_of (attrib g) ''type'' of
                    None \<Rightarrow> Inl (KeyError ''type'', st)
                  | Some ty \<Rightarrow>
                      (case parse_children st (kids g) nm [] of
                         Inl err \<Rightarrow> Inl err
                       | Inr (chs, st1) \<Rightarrow>
                           (let f = Feature nm mand par chs (Some (upper ty)) in
                              Inr (f, st1\<lparr>features := AList.update nm f (features st1)\<rparr>))))
             | None \<Rightarrow>
                 (case parse_children st (filter (\<lambda>k. tag k = ''feature'') (kids e)) nm [] of
                    Inl err \<Rightarrow> Inl err
                  | Inr (chs, st1) \<Rightarrow>
                      (let f = Feature nm mand par chs None in
                         Inr (f, st1\<lparr>features := AList.update nm f (features st1)\<rparr>)))))"
| "parse_children st [] nm acc = Inr (acc, st)"
| "parse_children st (c # cs) nm acc =
     (case parse_feature st c (Some nm) of
        Inl err \<Rightarrow> Inl err
      | Inr (f, st1) \<Rightarrow> parse_children st1 cs nm (acc @ [f]))"
  by pat_completeness auto
termination
  apply (relation "measure (\<lambda>x. case x of
          Inl (st, e, par) \<Rightarrow> 2 * size e
        | Inr (st, cs, nm, acc) \<Rightarrow> 2 * size_list size cs + 1)")
      apply simp_all
  subgoal for e
    using size_filter_kids [of "\<lambda>k. tag k = ''feature''" "kids e"] by (cases e) simp
  subgoal for e nm mand g
    using size_find_kid [of "\<lambda>k. tag k = ''group''" "kids e" g] by (cases e) simp
  done

text \<open>The loop over the constraint elements at the end of \<open>parse_xml\<close>.\<close>

fun parse_constraints :: "fm \<Rightarrow> element list \<Rightarrow> (error \<times> fm) + fm" where
  "parse_constraints st [] = Inr st"
| "parse_constraints st (c # cs) =
     (case find (\<lambda>k. tag k = ''englishStatement'') (kids c) of
        None \<Rightarrow> parse_constraints st cs
      | Some english \<Rightarrow>
          (case elem_text english of
             None \<Rightarrow> Inl (TypeError, st)
           | Some txt \<Rightarrow>
               parse_constraints
                 (st\<lparr>constraints := constraints st @
                       [\<lparr>englishStatement = txt,
                         ctype = (if contains txt ''required to'' then ''requires''
                                  else ''excludes'')\<rparr>]\<rparr>) cs))"

definition parse_xml :: "fm \<Rightarrow> element \<Rightarrow> (error \<times> fm) + fm" where
  "parse_xml st doc =
     (case find (\<lambda>k. tag k = ''feature'') (kids doc) of
        None \<Rightarrow> Inl (AttributeError, st)
      | Some root_feature \<Rightarrow>
          (case parse_feature st root_feature None of
             Inl err \<Rightarrow> Inl err
           | Inr (f, st1) \<Rightarrow>
               parse_constraints (st1\<lparr>root := Some f\<rparr>)
                 (filter (\<lambda>k. tag k = ''constraint'') (descendants doc))))"

section \<open>Auxiliary notions for the proofs\<close>

text \<open>
  None of the following comes from the source. \<open>var_of\<close> reads the registry,
  \<open>touch\<close> registers a list of names in order, and \<open>emits F ns rs cl\<close> says that the step
  \<open>F\<close> of the compiler registers the names \<open>ns\<close>, appends the rules \<open>rs\<close> and appends
  the clauses \<open>cl V\<close>, where \<open>V\<close> is the registry afterwards. \<open>fnames\<close>, \<open>frules\<close> and
  \<open>fclauses\<close> are what \<open>process_feature\<close> registers and emits for a feature; \<open>reg_ok\<close> is
  the invariant of the registry.
  For the parser, \<open>feature_elements e\<close> lists the elements that \<open>parse_feature\<close> visits
  from \<open>e\<close>, \<open>doc_ok\<close> says that none of them and no constraint element makes the parse
  raise, and \<open>only_extends st st'\<close> says that \<open>st'\<close> has the registry and the rule log of
  \<open>st\<close>, at least its feature names, and its constraints as a prefix of its own.
\<close>

definition var_of :: "fm \<Rightarrow> string \<Rightarrow> int" where
  "var_of st n = fst (get_var st n)"

definition touch :: "fm \<Rightarrow> string list \<Rightarrow> fm" where
  "touch st ns = snd (get_vars st ns)"

definition add_rules :: "fm \<Rightarrow> string list \<Rightarrow> fm" where
  "add_rules st rs = st\<lparr>logic_rules := logic_rules st @ rs\<rparr>"

definition emits ::
  "(fm \<times> clause list \<Rightarrow> fm \<times> clause list) \<Rightarrow> string list \<Rightarrow> string list \<Rightarrow>
   ((string \<Rightarrow> int) \<Rightarrow> clause list) \<Rightarrow> bool" where
  "emits F ns rs cl =
     ((\<forall>V1 V2. (\<forall>n \<in> set ns. V1 n = V2 n) \<longrightarrow> cl V1 = cl V2) \<and>
      (\<forall>st cnf. F (st, cnf) = (add_rules (touch st ns) rs, cnf @ cl (var_of (touch st ns)))))"

definition implies_rule :: "string \<Rightarrow> string \<Rightarrow> string" where
  "implies_rule a b = a @ '' '' @ arrow @ '' '' @ b"

definition root_rules :: "feature \<Rightarrow> string list" where
  "root_rules f = (if \<not> truthy (parent f) then [name f] else [])"

definition root_clauses :: "int \<Rightarrow> feature \<Rightarrow> clause list" where
  "root_clauses v f = (if \<not> truthy (parent f) then [[v]] else [])"

definition pc_names :: "feature \<Rightarrow> string list" where
  "pc_names f = (if truthy (parent f) then [the (parent f)] else [])"

definition pc_rules :: "feature \<Rightarrow> string list" where
  "pc_rules f =
     (if truthy (parent f) then
        if mandatory f
        then [implies_rule (the (parent f)) (name f), implies_rule (name f) (the (parent f))]
        else [implies_rule (name f) (the (parent f))]
      else [])"

definition pc_clauses :: "int \<Rightarrow> (string \<Rightarrow> int) \<Rightarrow> feature \<Rightarrow> clause list" where
  "pc_clauses v V f =
     (if truthy (parent f) then
        if mandatory f
        then [[- V (the (parent f)), v], [- v, V (the (parent f))]]
        else [[- v, V (the (parent f))]]
      else [])"

definition excl_rule :: "string \<times> string \<Rightarrow> string" where
  "excl_rule pr = neg_sign @ ''('' @ fst pr @ '' '' @ wedge @ '' '' @ snd pr @ '')''"

definition or_rule :: "feature \<Rightarrow> string" where
  "or_rule f = name f @ '' '' @ arrow @ '' ('' @ join ('' '' @ vee @ '' '') (map name (children f)) @ '')''"

definition group_names :: "feature \<Rightarrow> string list" where
  "group_names f =
     (if group f = Some ''XOR'' then
        map name (children f) @
        concat (map (\<lambda>pr. [fst pr, snd pr]) (combinations2 (map name (children f))))
      else if group f = Some ''OR'' then map name (children f)
      else [])"

definition group_rules :: "feature \<Rightarrow> string list" where
  "group_rules f =
     (if group f = Some ''XOR'' then
        or_rule f # map excl_rule (combinations2 (map name (children f)))
      else if group f = Some ''OR'' then [or_rule f]
      else [])"

definition group_clauses :: "int \<Rightarrow> (string \<Rightarrow> int) \<Rightarrow> feature \<Rightarrow> clause list" where
  "group_clauses v V f =
     (if group f = Some ''XOR'' then
        ((- v) # map V (map name (children f))) #
        map (\<lambda>pr. [- V (fst pr), - V (snd pr)]) (combinations2 (map name (children f)))
      else if group f = Some ''OR'' then [(- v) # map V (map name (children f))]
      else [])"

fun fnames :: "feature \<Rightarrow> string list" where
  "fnames (Feature nm mand par chs grp) =
     nm # pc_names (Feature nm mand par chs grp) @ group_names (Feature nm mand par chs grp)
        @ concat (map fnames chs)"

fun frules :: "feature \<Rightarrow> string list" where
  "frules (Feature nm mand par chs grp) =
     root_rules (Feature nm mand par chs grp) @ pc_rules (Feature nm mand par chs grp)
       @ group_rules (Feature nm mand par chs grp) @ concat (map frules chs)"

fun fclauses :: "(string \<Rightarrow> int) \<Rightarrow> feature \<Rightarrow> clause list" where
  "fclauses V (Feature nm mand par chs grp) =
     root_clauses (V nm) (Feature nm mand par chs grp)
       @ pc_clauses (V nm) V (Feature nm mand par chs grp)
       @ group_clauses (V nm) V (Feature nm mand par chs grp)
       @ concat (map (fclauses V) chs)"

definition matches_filter :: "constraint \<Rightarrow> bool" where
  "matches_filter c = (ctype c = ''requires'' \<and> contains (englishStatement c) ''filter'')"

definition cnames :: "constraint \<Rightarrow> string list" where
  "cnames c = (if matches_filter c then [''ByLocation'', ''Location''] else [])"

definition crules :: "constraint \<Rightarrow> string list" where
  "crules c = (if matches_filter c then [''Location '' @ arrow @ '' ByLocation''] else [])"

definition cclauses :: "(string \<Rightarrow> int) \<Rightarrow> constraint \<Rightarrow> clause list" where
  "cclauses V c = (if matches_filter c then [[- V ''ByLocation'', V ''Location'']] else [])"

definition compiled_names :: "feature \<Rightarrow> constraint list \<Rightarrow> string list" where
  "compiled_names r cs = fnames r @ concat (map cnames cs)"

definition compiled_rules :: "feature \<Rightarrow> constraint list \<Rightarrow> string list" where
  "compiled_rules r cs = frules r @ concat (map crules cs)"

definition compiled_clauses :: "(string \<Rightarrow> int) \<Rightarrow> feature \<Rightarrow> constraint list \<Rightarrow> clause list" where
  "compiled_clauses V r cs = fclauses V r @ concat (map (cclauses V) cs)"

definition compiled_state :: "fm \<Rightarrow> feature \<Rightarrow> fm" where
  "compiled_state st r =
     add_rules (touch (st\<lparr>logic_rules := []\<rparr>) (compiled_names r (constraints st)))
       (compiled_rules r (constraints st))"

definition reg_ok :: "fm \<Rightarrow> bool" where
  "reg_ok st =
     ((\<forall>n v. var_map st n = Some v \<longrightarrow> 0 < v \<and> v < next_var st \<and> reverse_map st v = Some n) \<and>
      (\<forall>v n. reverse_map st v = Some n \<longrightarrow> var_map st n = Some v) \<and> 0 < next_var st)"

definition asg :: "int list \<Rightarrow> int \<Rightarrow> bool" where
  "asg m v = (v \<in> set m)"

definition model_of :: "(int \<Rightarrow> bool) \<Rightarrow> nat \<Rightarrow> int list" where
  "model_of a n = map (\<lambda>i. if a (int i) then int i else - int i) [1..<Suc n]"

definition remaining :: "clause list \<Rightarrow> nat" where
  "remaining cs = length (filter (\<lambda>m. sat_by m cs) (all_models (nvars cs)))"

declare solve_loop.simps [code]

definition example_doc :: element where
  "example_doc =
     Element ''featureModel'' [] None
       [Element ''feature'' [(''name'', ''root'')] None
          [Element ''feature'' [(''name'', ''A''), (''mandatory'', ''true'')] None
             [Element ''group'' [(''type'', ''xor'')] None
                [Element ''feature'' [(''name'', ''B'')] None [],
                 Element ''feature'' [(''name'', ''C'')] None []]]]]"

definition example_tree :: feature where
  "example_tree =
     Feature ''root'' False None
       [Feature ''A'' True (Some ''root'')
          [Feature ''B'' False (Some ''A'') [] None, Feature ''C'' False (Some ''A'') [] None]
          (Some ''XOR'')] None"

definition example_model :: fm where
  "example_model = init\<lparr>features :=
       [(''B'', Feature ''B'' False (Some ''A'') [] None),
        (''C'', Feature ''C'' False (Some ''A'') [] None),
        (''A'', Feature ''A'' True (Some ''root'')
          [Feature ''B'' False (Some ''A'') [] None, Feature ''C'' False (Some ''A'') [] None]
          (Some ''XOR'')),
        (''root'', example_tree)], root := Some example_tree\<rparr>"

fun subfeatures :: "feature \<Rightarrow> feature list" where
  "subfeatures (Feature nm mand par chs grp) =
     Feature nm mand par chs grp # concat (map subfeatures chs)"

definition own_clauses :: "(string \<Rightarrow> int) \<Rightarrow> feature \<Rightarrow> clause list" where
  "own_clauses V f =
     root_clauses (V (name f)) f @ pc_clauses (V (name f)) V f @ group_clauses (V (name f)) V f"

definition selection_clauses :: "(string \<Rightarrow> int) \<Rightarrow> product \<Rightarrow> string list \<Rightarrow> clause list" where
  "selection_clauses V selected names =
     map (\<lambda>nm. [if Some nm \<in> selected then V nm else - V nm]) names"

definition missing_msg :: "feature \<Rightarrow> string" where
  "missing_msg f = ''Missing mandatory feature: '' @ name f"

definition lits_of :: "(string \<Rightarrow> int) \<Rightarrow> string list \<Rightarrow> int set" where
  "lits_of V ns = V ` set ns \<union> (uminus \<circ> V) ` set ns"

definition violation_list :: "feature \<Rightarrow> product \<Rightarrow> string list" where
  "violation_list r sel =
     (let msgs = check_feature sel r [] in
        if Some ''ByLocation'' \<in> sel \<and> Some ''Location'' \<notin> sel
        then msgs @ [''Location feature is required for ByLocation'']
        else msgs)"

definition unnamed_parent_doc :: element where
  "unnamed_parent_doc =
     Element ''featureModel'' [] None
       [Element ''feature'' [(''name'', ''R'')] None
          [Element ''feature'' [(''name'', '''')] None
             [Element ''feature'' [(''name'', ''F''), (''mandatory'', ''true'')] None []]]]"

definition filter_constraint :: constraint where
  "filter_constraint =
     \<lparr>englishStatement = ''Location is required to filter ByLocation'', ctype = ''requires''\<rparr>"

definition other_constraint :: constraint where
  "other_constraint =
     \<lparr>englishStatement = ''Payment is required to Checkout'', ctype = ''requires''\<rparr>"











declare parse_feature.simps [simp del]




definition keeps_rest :: "fm \<Rightarrow> fm \<Rightarrow> bool" where
  "keeps_rest st st' =
     (constraints st' = constraints st \<and> var_map st' = var_map st
      \<and> reverse_map st' = reverse_map st \<and> next_var st' = next_var st
      \<and> logic_rules st' = logic_rules st \<and> root st' = root st
      \<and> fst ` set (features st) \<subseteq> fst ` set (features st'))"

definition parse_error :: "error \<Rightarrow> bool" where
  "parse_error err = (err = KeyError ''name'' \<or> err = KeyError ''type'')"

definition keeps_model :: "fm \<Rightarrow> fm \<Rightarrow> bool" where
  "keeps_model st st' =
     (features st' = features st \<and> var_map st' = var_map st
      \<and> reverse_map st' = reverse_map st \<and> next_var st' = next_var st
      \<and> logic_rules st' = logic_rules st \<and> root st' = root st
      \<and> (\<exists>cs. constraints st' = constraints st @ cs))"

definition only_extends :: "fm \<Rightarrow> fm \<Rightarrow> bool" where
  "only_extends st st' =
     (var_map st' = var_map st \<and> reverse_map st' = reverse_map st
      \<and> next_var st' = next_var st \<and> logic_rules st' = logic_rules st
      \<and> fst ` set (features st) \<subseteq> fst ` set (features st')
      \<and> (\<exists>cs. constraints st' = constraints st @ cs))"







section \<open>Lemmas\<close>

lemma touch_Nil [simp]: "touch st [] = st"
  by (simp add: touch_def)

lemma touch_Cons: "touch st (n # ns) = touch (snd (get_var st n)) ns"
  by (simp add: touch_def split: prod.splits)

lemma touch_append: "touch st (a @ b) = touch (touch st a) b"
  by (induction a arbitrary: st) (simp_all add: touch_Cons)

lemma get_var_registered: "var_map st n = Some v \<Longrightarrow> get_var st n = (v, st)"
  by (simp add: get_var_def)

lemma var_map_get_var:
  "var_map (snd (get_var st n)) = (case var_map st n of None \<Rightarrow> (var_map st)(n \<mapsto> next_var st) | Some v \<Rightarrow> var_map st)"
  by (simp add: get_var_def split: option.splits)

lemma get_var_fst_after: "var_map (snd (get_var st n)) n = Some (fst (get_var st n))"
  by (simp add: get_var_def split: option.splits)

lemma get_var_mono: "var_map st k = Some v \<Longrightarrow> var_map (snd (get_var st n)) k = Some v"
  by (auto simp add: get_var_def split: option.splits)

lemma touch_mono: "var_map st k = Some v \<Longrightarrow> var_map (touch st ns) k = Some v"
  by (induction ns arbitrary: st) (simp_all add: touch_Cons get_var_mono)

lemma var_of_registered: "var_map st n = Some v \<Longrightarrow> var_of st n = v"
  by (simp add: var_of_def get_var_def)

lemma dom_touch: "dom (var_map (touch st ns)) = dom (var_map st) \<union> set ns"
proof (induction ns arbitrary: st)
  case Nil
  show ?case by simp
next
  case (Cons n ns)
  have "dom (var_map (snd (get_var st n))) = insert n (dom (var_map st))"
    by (auto simp: get_var_def split: option.splits)
  with Cons show ?case by (simp add: touch_Cons)
qed

lemma touch_id: "set ns \<subseteq> dom (var_map st) \<Longrightarrow> touch st ns = st"
  by (induction ns) (auto simp: touch_Cons get_var_registered)

lemma var_of_touch_stable:
  assumes "n \<in> dom (var_map st)"
  shows "var_of (touch st ns) n = var_of st n"
proof -
  from assms obtain v where v: "var_map st n = Some v" by auto
  then have "var_map (touch st ns) n = Some v" by (rule touch_mono)
  with v show ?thesis by (simp add: var_of_registered)
qed

lemma get_var_eq: "get_var st n = (var_of (touch st [n]) n, touch st [n])"
proof -
  have "var_map (touch st [n]) n = Some (fst (get_var st n))"
    by (simp add: touch_Cons get_var_fst_after)
  then have "var_of (touch st [n]) n = fst (get_var st n)"
    by (rule var_of_registered)
  then show ?thesis by (simp add: touch_Cons prod_eq_iff)
qed

lemma get_vars_eq: "get_vars st ns = (map (var_of (touch st ns)) ns, touch st ns)"
proof (induction ns arbitrary: st)
  case Nil
  show ?case by simp
next
  case (Cons n ns)
  let ?s1 = "touch st [n]"
  have n_in: "n \<in> dom (var_map ?s1)" by (simp add: dom_touch)
  have "var_of (touch ?s1 ns) n = var_of ?s1 n"
    using n_in by (rule var_of_touch_stable)
  moreover have "touch st (n # ns) = touch ?s1 ns"
    using touch_append [of st "[n]" ns] by simp
  ultimately show ?case
    using Cons [of ?s1] by (simp add: get_var_eq)
qed

lemma touch_fields [simp]:
  "features (touch st ns) = features st"
  "constraints (touch st ns) = constraints st"
  "root (touch st ns) = root st"
  "logic_rules (touch st ns) = logic_rules st"
  by (induction ns arbitrary: st; simp add: touch_Cons get_var_def split: option.splits)+

lemma add_rules_fields [simp]:
  "features (add_rules st rs) = features st"
  "constraints (add_rules st rs) = constraints st"
  "root (add_rules st rs) = root st"
  "var_map (add_rules st rs) = var_map st"
  "reverse_map (add_rules st rs) = reverse_map st"
  "next_var (add_rules st rs) = next_var st"
  "logic_rules (add_rules st rs) = logic_rules st @ rs"
  by (simp_all add: add_rules_def)

lemma add_rule_add_rules: "add_rule st r = add_rules st [r]"
  by (simp add: add_rule_def add_rules_def)

lemma add_rules_add_rules [simp]: "add_rules (add_rules st a) b = add_rules st (a @ b)"
  by (simp add: add_rules_def)

lemma add_rules_Nil [simp]: "add_rules st [] = st"
  by (simp add: add_rules_def)

lemma get_var_add_rules:
  "get_var (add_rules st rs) n = (fst (get_var st n), add_rules (snd (get_var st n)) rs)"
  by (simp add: get_var_def add_rules_def split: option.splits)

lemma touch_add_rules: "touch (add_rules st rs) ns = add_rules (touch st ns) rs"
  by (induction ns arbitrary: st) (simp_all add: touch_Cons get_var_add_rules)

lemma var_of_add_rules [simp]: "var_of (add_rules st rs) = var_of st"
  by (rule ext) (simp add: var_of_def get_var_add_rules)

lemma emitsI:
  assumes "\<And>V1 V2. (\<forall>n \<in> set ns. V1 n = V2 n) \<Longrightarrow> cl V1 = cl V2"
    and "\<And>st cnf. F (st, cnf) = (add_rules (touch st ns) rs, cnf @ cl (var_of (touch st ns)))"
  shows "emits F ns rs cl"
  using assms unfolding emits_def by blast

lemma emits_cong: "emits F ns rs cl \<Longrightarrow> (\<forall>n \<in> set ns. V1 n = V2 n) \<Longrightarrow> cl V1 = cl V2"
  unfolding emits_def by blast

lemma emits_apply:
  "emits F ns rs cl \<Longrightarrow> F (st, cnf) = (add_rules (touch st ns) rs, cnf @ cl (var_of (touch st ns)))"
  unfolding emits_def by blast

lemma emits_const: "emits (\<lambda>acc. (add_rules (fst acc) rs, snd acc @ cs)) [] rs (\<lambda>V. cs)"
  by (rule emitsI) simp_all

lemma emits_skip: "emits (\<lambda>acc. acc) [] [] (\<lambda>V. [])"
  by (rule emitsI) simp_all

lemma emits_comp:
  assumes F: "emits F ns1 rs1 cl1" and G: "emits G ns2 rs2 cl2"
  shows "emits (\<lambda>acc. G (F acc)) (ns1 @ ns2) (rs1 @ rs2) (\<lambda>V. cl1 V @ cl2 V)"
proof (rule emitsI)
  fix V1 V2 :: "string \<Rightarrow> int"
  assume "\<forall>n \<in> set (ns1 @ ns2). V1 n = V2 n"
  then have "cl1 V1 = cl1 V2" "cl2 V1 = cl2 V2"
    using emits_cong [OF F, of V1 V2] emits_cong [OF G, of V1 V2] by auto
  then show "cl1 V1 @ cl2 V1 = cl1 V2 @ cl2 V2" by simp
next
  fix st cnf
  let ?s1 = "touch st ns1" and ?s2 = "touch st (ns1 @ ns2)"
  have s2: "touch ?s1 ns2 = ?s2" by (simp add: touch_append)
  have "\<forall>n \<in> set ns1. var_of ?s1 n = var_of ?s2 n"
  proof
    fix n assume "n \<in> set ns1"
    then have "n \<in> dom (var_map ?s1)" by (simp add: dom_touch)
    then show "var_of ?s1 n = var_of ?s2 n"
      using var_of_touch_stable [of n ?s1 ns2] s2 by simp
  qed
  then have cl1: "cl1 (var_of ?s1) = cl1 (var_of ?s2)"
    by (rule emits_cong [OF F])
  show "G (F (st, cnf)) = (add_rules ?s2 (rs1 @ rs2), cnf @ cl1 (var_of ?s2) @ cl2 (var_of ?s2))"
    by (simp add: emits_apply [OF F] emits_apply [OF G] touch_add_rules s2 cl1)
qed

lemma emits_bind:
  assumes G: "\<And>v. emits (G v) ns rs (cl v)"
  shows "emits (\<lambda>acc. case get_var (fst acc) n of (v, st1) \<Rightarrow> G v (st1, snd acc))
           (n # ns) rs (\<lambda>V. cl (V n) V)"
proof (rule emitsI)
  fix V1 V2 :: "string \<Rightarrow> int"
  assume a: "\<forall>k \<in> set (n # ns). V1 k = V2 k"
  then have "cl (V1 n) V1 = cl (V1 n) V2"
    using emits_cong [OF G, of V1 V2 "V1 n"] by simp
  with a show "cl (V1 n) V1 = cl (V2 n) V2" by simp
next
  fix st cnf
  let ?s1 = "touch st [n]" and ?s2 = "touch st (n # ns)"
  have s2: "touch ?s1 ns = ?s2" using touch_append [of st "[n]" ns] by simp
  have "n \<in> dom (var_map ?s1)" by (simp add: dom_touch)
  then have v: "var_of ?s1 n = var_of ?s2 n"
    using var_of_touch_stable [of n ?s1 ns] s2 by simp
  show "(case get_var (fst (st, cnf)) n of (v, st1) \<Rightarrow> G v (st1, snd (st, cnf)))
        = (add_rules ?s2 rs, cnf @ cl (var_of ?s2 n) (var_of ?s2))"
    by (simp add: get_var_eq emits_apply [OF G] s2 v)
qed

lemma emits_binds:
  assumes G: "\<And>vs. emits (G vs) ns rs (cl vs)"
  shows "emits (\<lambda>acc. case get_vars (fst acc) names of (vs, st1) \<Rightarrow> G vs (st1, snd acc))
           (names @ ns) rs (\<lambda>V. cl (map V names) V)"
proof (rule emitsI)
  fix V1 V2 :: "string \<Rightarrow> int"
  assume a: "\<forall>k \<in> set (names @ ns). V1 k = V2 k"
  then have "cl (map V1 names) V1 = cl (map V1 names) V2"
    using emits_cong [OF G, of V1 V2 "map V1 names"] by simp
  moreover from a have "map V1 names = map V2 names" by simp
  ultimately show "cl (map V1 names) V1 = cl (map V2 names) V2" by metis
next
  fix st cnf
  let ?s1 = "touch st names" and ?s2 = "touch st (names @ ns)"
  have s2: "touch ?s1 ns = ?s2" by (simp add: touch_append)
  have "\<forall>k \<in> set names. var_of ?s1 k = var_of ?s2 k"
  proof
    fix k assume "k \<in> set names"
    then have "k \<in> dom (var_map ?s1)" by (simp add: dom_touch)
    then show "var_of ?s1 k = var_of ?s2 k"
      using var_of_touch_stable [of k ?s1 ns] s2 by simp
  qed
  then have v: "map (var_of ?s1) names = map (var_of ?s2) names" by simp
  show "(case get_vars (fst (st, cnf)) names of (vs, st1) \<Rightarrow> G vs (st1, snd (st, cnf)))
        = (add_rules ?s2 rs, cnf @ cl (map (var_of ?s2) names) (var_of ?s2))"
    by (simp add: get_vars_eq emits_apply [OF G] s2 v)
qed

lemma emits_fold:
  assumes "\<And>x. x \<in> set xs \<Longrightarrow> emits (F x) (ns x) (rs x) (cl x)"
  shows "emits (fold F xs) (concat (map ns xs)) (concat (map rs xs))
           (\<lambda>V. concat (map (\<lambda>x. cl x V) xs))"
  using assms
proof (induction xs)
  case Nil
  show ?case using emits_skip by (simp add: id_def)
next
  case (Cons x xs)
  have 1: "emits (F x) (ns x) (rs x) (cl x)" using Cons.prems by simp
  have 2: "emits (fold F xs) (concat (map ns xs)) (concat (map rs xs))
             (\<lambda>V. concat (map (\<lambda>x. cl x V) xs))"
    using Cons by simp
  show ?case using emits_comp [OF 1 2] by (simp add: comp_def)
qed

lemma emits_eq: "emits F ns rs cl \<Longrightarrow> F = F' \<Longrightarrow> ns = ns' \<Longrightarrow> rs = rs' \<Longrightarrow> cl = cl' \<Longrightarrow> emits F' ns' rs' cl'"
  by simp

lemma emits_root_section:
  "emits (\<lambda>acc. root_section acc f v) [] (root_rules f) (\<lambda>V. root_clauses v f)"
  by (rule emitsI) (simp_all add: root_section_def root_rules_def root_clauses_def add_rule_add_rules)

lemma emits_parent_child_section:
  "emits (\<lambda>acc. parent_child_section acc f v) (pc_names f) (pc_rules f) (\<lambda>V. pc_clauses v V f)"
proof (cases "truthy (parent f)")
  case False
  then show ?thesis
    by (intro emitsI) (simp_all add: parent_child_section_def pc_names_def pc_rules_def pc_clauses_def)
next
  case True
  let ?p = "the (parent f)"
  let ?G = "\<lambda>pv acc. (add_rules (fst acc) (pc_rules f), snd acc @
              (if mandatory f then [[- pv, v], [- v, pv]] else [[- v, pv]]))"
  have "emits (\<lambda>acc. case get_var (fst acc) ?p of (pv, st1) \<Rightarrow> ?G pv (st1, snd acc))
          (?p # []) (pc_rules f)
          (\<lambda>V. if mandatory f then [[- V ?p, v], [- v, V ?p]] else [[- v, V ?p]])"
    by (rule emits_bind) (rule emits_const)
  moreover have "(\<lambda>acc. case get_var (fst acc) ?p of (pv, st1) \<Rightarrow> ?G pv (st1, snd acc))
                 = (\<lambda>acc. parent_child_section acc f v)"
    using True
    by (auto simp: fun_eq_iff parent_child_section_def pc_rules_def add_rule_add_rules
                   implies_rule_def Let_def split: prod.splits)
  moreover have "(\<lambda>V. if mandatory f then [[- V ?p, v], [- v, V ?p]] else [[- v, V ?p]])
                 = (\<lambda>V. pc_clauses v V f)"
    using True by (auto simp: fun_eq_iff pc_clauses_def)
  ultimately show ?thesis using True by (simp add: pc_names_def)
qed

lemma emits_exclusion_step:
  "emits (exclusion_step pr) [fst pr, snd pr] [excl_rule pr]
     (\<lambda>V. [[- V (fst pr), - V (snd pr)]])"
proof -
  let ?A = "\<lambda>acc :: fm \<times> clause list. (add_rules (fst acc) [excl_rule pr], snd acc @ [])"
  let ?G2 = "\<lambda>v1 v2 (acc :: fm \<times> clause list). (add_rules (fst acc) [], snd acc @ [[- v1, - v2]])"
  let ?G1 = "\<lambda>v1 (acc :: fm \<times> clause list).
               case get_var (fst acc) (snd pr) of (v2, st1) \<Rightarrow> ?G2 v1 v2 (st1, snd acc)"
  let ?B = "\<lambda>acc :: fm \<times> clause list.
               case get_var (fst acc) (fst pr) of (v1, st1) \<Rightarrow> ?G1 v1 (st1, snd acc)"
  have A: "emits ?A [] [excl_rule pr] (\<lambda>V. [])" by (rule emits_const)
  have G1: "\<And>v1. emits (?G1 v1) [snd pr] [] (\<lambda>V. [[- v1, - V (snd pr)]])"
    by (rule emits_bind) (rule emits_const)
  have B: "emits ?B [fst pr, snd pr] [] (\<lambda>V. [[- V (fst pr), - V (snd pr)]])"
    by (rule emits_bind) (rule G1)
  have "(\<lambda>acc. ?B (?A acc)) = exclusion_step pr"
    by (auto simp: fun_eq_iff exclusion_step_def excl_rule_def add_rule_add_rules
             split: prod.splits)
  then show ?thesis using emits_comp [OF A B] by simp
qed

lemma emits_group_section:
  "emits (\<lambda>acc. group_section acc f v) (group_names f) (group_rules f) (\<lambda>V. group_clauses v V f)"
proof -
  let ?names = "map name (children f)"
  let ?K = "\<lambda>vs (acc :: fm \<times> clause list). (add_rules (fst acc) [or_rule f], snd acc @ [(- v) # vs])"
  have K: "\<And>vs. emits (?K vs) [] [or_rule f] (\<lambda>V. [(- v) # vs])"
    by (rule emits_const)
  consider (xor) "group f = Some ''XOR''" | (or) "group f \<noteq> Some ''XOR''" "group f = Some ''OR''"
    | (none) "group f \<noteq> Some ''XOR''" "group f \<noteq> Some ''OR''"
    by blast
  then show ?thesis
  proof cases
    case xor
    let ?pairs = "combinations2 ?names"
    have E: "emits (fold exclusion_step ?pairs)
               (concat (map (\<lambda>pr. [fst pr, snd pr]) ?pairs))
               (concat (map (\<lambda>pr. [excl_rule pr]) ?pairs))
               (\<lambda>V. concat (map (\<lambda>pr. [[- V (fst pr), - V (snd pr)]]) ?pairs))"
      by (rule emits_fold) (rule emits_exclusion_step)
    let ?G = "\<lambda>vs acc. fold exclusion_step ?pairs (?K vs acc)"
    have G: "\<And>vs. emits (?G vs) ([] @ concat (map (\<lambda>pr. [fst pr, snd pr]) ?pairs))
               ([or_rule f] @ concat (map (\<lambda>pr. [excl_rule pr]) ?pairs))
               (\<lambda>V. [(- v) # vs] @ concat (map (\<lambda>pr. [[- V (fst pr), - V (snd pr)]]) ?pairs))"
      by (rule emits_comp [OF K E])
    have H: "emits (\<lambda>acc. case get_vars (fst acc) ?names of (vs, st1) \<Rightarrow> ?G vs (st1, snd acc))
               (?names @ ([] @ concat (map (\<lambda>pr. [fst pr, snd pr]) ?pairs)))
               ([or_rule f] @ concat (map (\<lambda>pr. [excl_rule pr]) ?pairs))
               (\<lambda>V. [(- v) # map V ?names] @
                      concat (map (\<lambda>pr. [[- V (fst pr), - V (snd pr)]]) ?pairs))"
      by (rule emits_binds) (rule G)
    have c1: "\<And>g xs. concat (map (\<lambda>x. [g x]) xs) = map g xs"
      by (induct_tac xs) simp_all
    have "(\<lambda>acc. case get_vars (fst acc) ?names of (vs, st1) \<Rightarrow> ?G vs (st1, snd acc))
          = (\<lambda>acc. group_section acc f v)"
      using xor
      by (auto simp: fun_eq_iff group_section_def or_rule_def add_rule_add_rules Let_def
               split: prod.splits)
    then show ?thesis
      using H xor by (simp add: group_names_def group_rules_def group_clauses_def c1)
  next
    case or
    have H: "emits (\<lambda>acc. case get_vars (fst acc) ?names of (vs, st1) \<Rightarrow> ?K vs (st1, snd acc))
               (?names @ []) [or_rule f] (\<lambda>V. [(- v) # map V ?names])"
      by (rule emits_binds) (rule K)
    have "(\<lambda>acc. case get_vars (fst acc) ?names of (vs, st1) \<Rightarrow> ?K vs (st1, snd acc))
          = (\<lambda>acc. group_section acc f v)"
      using or
      by (auto simp: fun_eq_iff group_section_def or_rule_def add_rule_add_rules Let_def
               split: prod.splits)
    then show ?thesis
      using H or by (simp add: group_names_def group_rules_def group_clauses_def)
  next
    case none
    then show ?thesis
      by (intro emitsI)
         (simp_all add: group_section_def group_names_def group_rules_def group_clauses_def)
  qed
qed

lemma emits_process_feature:
  "emits (\<lambda>acc. process_feature acc f) (fnames f) (frules f) (\<lambda>V. fclauses V f)"
proof (induction f)
  case (Feature nm mand par chs grp)
  let ?f = "Feature nm mand par chs grp"
  have ch: "emits (fold (\<lambda>child a. process_feature a child) chs)
              (concat (map fnames chs)) (concat (map frules chs))
              (\<lambda>V. concat (map (\<lambda>c. fclauses V c) chs))"
    by (rule emits_fold) (rule Feature.IH)
  let ?G = "\<lambda>v acc. fold (\<lambda>child a. process_feature a child) chs
              (group_section (parent_child_section (root_section acc ?f v) ?f v) ?f v)"
  have G: "\<And>v. emits (?G v)
             ([] @ pc_names ?f @ group_names ?f @ concat (map fnames chs))
             (root_rules ?f @ pc_rules ?f @ group_rules ?f @ concat (map frules chs))
             (\<lambda>V. root_clauses v ?f @ pc_clauses v V ?f @ group_clauses v V ?f
                    @ concat (map (\<lambda>c. fclauses V c) chs))"
    by (rule emits_comp [OF emits_root_section
          emits_comp [OF emits_parent_child_section emits_comp [OF emits_group_section ch]]])
  have "emits (\<lambda>acc. case get_var (fst acc) nm of (v, st1) \<Rightarrow> ?G v (st1, snd acc))
          (nm # ([] @ pc_names ?f @ group_names ?f @ concat (map fnames chs)))
          (root_rules ?f @ pc_rules ?f @ group_rules ?f @ concat (map frules chs))
          (\<lambda>V. root_clauses (V nm) ?f @ pc_clauses (V nm) V ?f @ group_clauses (V nm) V ?f
                 @ concat (map (\<lambda>c. fclauses V c) chs))"
    by (rule emits_bind) (rule G)
  moreover have "(\<lambda>acc. case get_var (fst acc) nm of (v, st1) \<Rightarrow> ?G v (st1, snd acc))
                 = (\<lambda>acc. process_feature acc ?f)"
    by (auto simp: fun_eq_iff Let_def split: prod.splits)
  ultimately show ?case by simp
qed

lemma emits_constraint_step:
  "emits (constraint_step c) (cnames c) (crules c) (\<lambda>V. cclauses V c)"
proof (cases "matches_filter c")
  case False
  then have "constraint_step c = (\<lambda>acc. acc)"
    by (auto simp: fun_eq_iff constraint_step_def matches_filter_def)
  then show ?thesis
    using False emits_skip by (simp add: cnames_def crules_def cclauses_def)
next
  case True
  let ?r = "''Location '' @ arrow @ '' ByLocation''"
  let ?A = "\<lambda>acc :: fm \<times> clause list. (add_rules (fst acc) [?r], snd acc @ [])"
  let ?G2 = "\<lambda>v1 v2 (acc :: fm \<times> clause list). (add_rules (fst acc) [], snd acc @ [[- v1, v2]])"
  let ?G1 = "\<lambda>v1 (acc :: fm \<times> clause list).
               case get_var (fst acc) ''Location'' of (v2, st1) \<Rightarrow> ?G2 v1 v2 (st1, snd acc)"
  let ?B = "\<lambda>acc :: fm \<times> clause list.
               case get_var (fst acc) ''ByLocation'' of (v1, st1) \<Rightarrow> ?G1 v1 (st1, snd acc)"
  have A: "emits ?A [] [?r] (\<lambda>V. [])" by (rule emits_const)
  have G1: "\<And>v1. emits (?G1 v1) [''Location''] [] (\<lambda>V. [[- v1, V ''Location'']])"
    by (rule emits_bind) (rule emits_const)
  have B: "emits ?B [''ByLocation'', ''Location''] []
             (\<lambda>V. [[- V ''ByLocation'', V ''Location'']])"
    by (rule emits_bind) (rule G1)
  have "(\<lambda>acc. ?B (?A acc)) = constraint_step c"
    using True
    by (auto simp: fun_eq_iff constraint_step_def matches_filter_def add_rule_add_rules Let_def
             split: prod.splits)
  then show ?thesis
    using emits_comp [OF A B] True by (simp add: cnames_def crules_def cclauses_def)
qed

lemma emits_compile:
  "emits (\<lambda>acc. fold constraint_step cs (process_feature acc r))
     (compiled_names r cs) (compiled_rules r cs) (\<lambda>V. compiled_clauses V r cs)"
proof -
  have C: "emits (fold constraint_step cs) (concat (map cnames cs)) (concat (map crules cs))
             (\<lambda>V. concat (map (\<lambda>c. cclauses V c) cs))"
    by (rule emits_fold) (rule emits_constraint_step)
  show ?thesis
    using emits_comp [OF emits_process_feature C]
    by (simp add: compiled_names_def compiled_rules_def compiled_clauses_def)
qed

lemma generate_eq:
  assumes "root st = Some r"
  shows "generate_rules_and_cnf st =
           Inr (compiled_state st r,
                compiled_clauses (var_of (compiled_state st r)) r (constraints st))"
  using assms
  by (simp add: generate_rules_and_cnf_def compiled_state_def Let_def emits_apply [OF emits_compile])

lemma generate_no_root:
  "root st = None \<Longrightarrow> generate_rules_and_cnf st = Inl (AttributeError, st\<lparr>logic_rules := []\<rparr>)"
  by (simp add: generate_rules_and_cnf_def Let_def)

lemma compiled_state_fields [simp]:
  "features (compiled_state st r) = features st"
  "constraints (compiled_state st r) = constraints st"
  "root (compiled_state st r) = root st"
  "logic_rules (compiled_state st r) = compiled_rules r (constraints st)"
  by (simp_all add: compiled_state_def)

lemma touch_reset_rules:
  "touch (st\<lparr>logic_rules := rs\<rparr>) ns = (touch st ns)\<lparr>logic_rules := rs\<rparr>"
proof (induction ns arbitrary: st)
  case Nil show ?case by simp
next
  case (Cons n ns)
  have "snd (get_var (st\<lparr>logic_rules := rs\<rparr>) n) = (snd (get_var st n))\<lparr>logic_rules := rs\<rparr>"
    by (simp add: get_var_def split: option.splits)
  with Cons show ?case by (simp add: touch_Cons)
qed

lemma compiled_state_var_map:
  "var_map (compiled_state st r) = var_map (touch st (compiled_names r (constraints st)))"
  "reverse_map (compiled_state st r) = reverse_map (touch st (compiled_names r (constraints st)))"
  "next_var (compiled_state st r) = next_var (touch st (compiled_names r (constraints st)))"
  by (simp_all add: compiled_state_def touch_reset_rules)

lemma var_of_cong: "var_map st = var_map st' \<Longrightarrow> next_var st = next_var st' \<Longrightarrow> var_of st = var_of st'"
  by (rule ext) (simp add: var_of_def get_var_def split: option.splits)

lemma var_of_compiled_state:
  "var_of (compiled_state st r) = var_of (touch st (compiled_names r (constraints st)))"
  by (rule var_of_cong) (simp_all add: compiled_state_var_map)

lemma compiled_names_registered:
  "set (compiled_names r (constraints st)) \<subseteq> dom (var_map (compiled_state st r))"
  by (simp add: compiled_state_var_map dom_touch)

lemma compiled_state_mono:
  "var_map st k = Some v \<Longrightarrow> var_map (compiled_state st r) k = Some v"
  by (simp add: compiled_state_var_map touch_mono)

lemma compiled_state_idem:
  assumes "root st = Some r"
  shows "compiled_state (compiled_state st r) r = compiled_state st r"
proof -
  let ?s = "compiled_state st r"
  let ?ns = "compiled_names r (constraints st)"
  have "set ?ns \<subseteq> dom (var_map (?s\<lparr>logic_rules := []\<rparr>))"
    using compiled_names_registered [of r st] by simp
  then have "touch (?s\<lparr>logic_rules := []\<rparr>) ?ns = ?s\<lparr>logic_rules := []\<rparr>"
    by (rule touch_id)
  then show ?thesis
    by (simp add: compiled_state_def [of ?s] add_rules_def)
qed

lemma generate_idem:
  assumes "generate_rules_and_cnf st = Inr (st', cnf)"
  shows "generate_rules_and_cnf st' = Inr (st', cnf)"
proof -
  from assms obtain r where r: "root st = Some r"
    by (cases "root st") (auto simp: generate_no_root)
  with assms have st': "st' = compiled_state st r"
    and cnf: "cnf = compiled_clauses (var_of st') r (constraints st)"
    by (auto simp: generate_eq)
  have "root st' = Some r" using r st' by simp
  then show ?thesis
    using generate_eq [of st' r] st' cnf compiled_state_idem [OF r] by simp
qed

lemma reg_ok_init: "reg_ok init"
  by (simp add: reg_ok_def init_def)

lemma reg_okD1:
  "reg_ok st \<Longrightarrow> var_map st n = Some v \<Longrightarrow> 0 < v \<and> v < next_var st \<and> reverse_map st v = Some n"
  unfolding reg_ok_def by (elim conjE allE [of _ n] allE [of _ v]) simp

lemma reg_okD2: "reg_ok st \<Longrightarrow> reverse_map st v = Some n \<Longrightarrow> var_map st n = Some v"
  unfolding reg_ok_def by (elim conjE allE [of _ n] allE [of _ v]) simp

lemma reg_okD3: "reg_ok st \<Longrightarrow> 0 < next_var st"
  unfolding reg_ok_def by (elim conjE)

lemma reg_ok_get_var:
  assumes "reg_ok st"
  shows "reg_ok (snd (get_var st n))"
proof (cases "var_map st n")
  case (Some v)
  then show ?thesis using assms by (simp add: get_var_def)
next
  case None
  have lt: "\<And>k v. var_map st k = Some v \<Longrightarrow> v < next_var st \<and> 0 < v \<and> reverse_map st v = Some k"
    using reg_okD1 [OF assms] by simp
  have bk: "\<And>k v. reverse_map st v = Some k \<Longrightarrow> var_map st k = Some v"
    using reg_okD2 [OF assms] by simp
  have pos: "0 < next_var st" using assms by (rule reg_okD3)
  have vm: "var_map (snd (get_var st n)) = (var_map st)(n \<mapsto> next_var st)"
    and rm: "reverse_map (snd (get_var st n)) = (reverse_map st)(next_var st \<mapsto> n)"
    and nv: "next_var (snd (get_var st n)) = next_var st + 1"
    using None by (simp_all add: get_var_def)
  show ?thesis
    unfolding reg_ok_def vm rm nv
  proof (intro conjI allI impI)
    fix k v assume a: "((var_map st)(n \<mapsto> next_var st)) k = Some v"
    show "0 < v"
    proof (cases "k = n")
      case True then show ?thesis using a pos by simp
    next
      case False then show ?thesis using a lt [of k v] by simp
    qed
    show "v < next_var st + 1"
    proof (cases "k = n")
      case True then show ?thesis using a by simp
    next
      case False then show ?thesis using a lt [of k v] by simp
    qed
    show "((reverse_map st)(next_var st \<mapsto> n)) v = Some k"
    proof (cases "k = n")
      case True then show ?thesis using a by simp
    next
      case False then show ?thesis using a lt [of k v] by auto
    qed
  next
    fix v k assume a: "((reverse_map st)(next_var st \<mapsto> n)) v = Some k"
    show "((var_map st)(n \<mapsto> next_var st)) k = Some v"
    proof (cases "v = next_var st")
      case True then show ?thesis using a by simp
    next
      case False
      then have "var_map st k = Some v" using a bk [of v k] by simp
      then show ?thesis using None by auto
    qed
  next
    show "0 < next_var st + 1" using pos by simp
  qed
qed

lemma reg_ok_touch: "reg_ok st \<Longrightarrow> reg_ok (touch st ns)"
  by (induction ns arbitrary: st) (simp_all add: touch_Cons reg_ok_get_var)

lemma reg_ok_cong:
  "var_map st = var_map st' \<Longrightarrow> reverse_map st = reverse_map st' \<Longrightarrow> next_var st = next_var st'
   \<Longrightarrow> reg_ok st = reg_ok st'"
  by (simp add: reg_ok_def)

lemma reg_ok_compiled_state: "reg_ok st \<Longrightarrow> reg_ok (compiled_state st r)"
  using reg_ok_touch [of st "compiled_names r (constraints st)"]
        reg_ok_cong [of "compiled_state st r" "touch st (compiled_names r (constraints st))"]
  by (simp add: compiled_state_var_map)

lemma var_of_pos:
  assumes "reg_ok st"
  shows "0 < var_of st n"
proof (cases "var_map st n")
  case None
  then show ?thesis using reg_okD3 [OF assms] by (simp add: var_of_def get_var_def)
next
  case (Some v)
  then have "0 < v" using reg_okD1 [OF assms] by simp
  then show ?thesis using Some by (simp add: var_of_registered)
qed


lemma is_model_Suc:
  "is_model (Suc n) m' = (\<exists>m x. m' = m @ [x] \<and> is_model n m \<and> abs x = int (Suc n))"
proof
  assume a: "is_model (Suc n) m'"
  then have "m' \<noteq> []" by (auto simp: is_model_def)
  then obtain m x where m': "m' = m @ [x]" by (metis rev_exhaust)
  with a show "\<exists>m x. m' = m @ [x] \<and> is_model n m \<and> abs x = int (Suc n)"
    by (auto simp: is_model_def)
next
  assume "\<exists>m x. m' = m @ [x] \<and> is_model n m \<and> abs x = int (Suc n)"
  then show "is_model (Suc n) m'" by (auto simp: is_model_def)
qed

lemma is_model_iff: "is_model n m = (m \<in> set (all_models n))"
proof (induction n arbitrary: m)
  case 0
  show ?case by (simp add: is_model_def)
next
  case (Suc n)
  have "\<And>x. (abs x = int (Suc n)) = (x = int (Suc n) \<or> x = - int (Suc n))" by auto
  then show ?case
    using Suc by (auto simp: is_model_Suc)
qed

lemma is_model_abs: "is_model n m \<Longrightarrow> l \<in> set m \<Longrightarrow> 1 \<le> abs l \<and> abs l \<le> int n"
proof -
  assume m: "is_model n m" and l: "l \<in> set m"
  then have "abs l \<in> set (map int [1..<Suc n])"
    unfolding is_model_def by (metis image_eqI set_map)
  then show ?thesis by auto
qed

lemma is_model_exactly_one:
  assumes m: "is_model n m" and v: "1 \<le> v" "v \<le> int n"
  shows "(- v \<in> set m) = (v \<notin> set m)"
proof -
  have d: "distinct (map abs m)" using m by (simp add: is_model_def distinct_map)
  have "nat v \<in> set [1..<Suc n]" using v by auto
  then have "int (nat v) \<in> int ` set [1..<Suc n]" by (rule imageI)
  then have "int (nat v) \<in> set (map int [1..<Suc n])" by (simp only: set_map)
  then have "v \<in> set (map abs m)" using m v by (simp add: is_model_def)
  then obtain l where l: "l \<in> set m" "abs l = v" by auto
  then have ex: "v \<in> set m \<or> - v \<in> set m" by (cases "0 \<le> l") auto
  have "\<not> (v \<in> set m \<and> - v \<in> set m)"
  proof
    assume both: "v \<in> set m \<and> - v \<in> set m"
    have "inj_on abs (set m)" using d by (simp add: distinct_map)
    then have "v = - v" using both inj_onD [of abs "set m" v "- v"] by simp
    then show False using v by simp
  qed
  with ex show ?thesis by blast
qed

lemma lit_true_asg:
  assumes m: "is_model n m" and l: "l \<in> set m"
  shows "lit_true (asg m) l"
proof (cases "0 < l")
  case True
  then show ?thesis using l by (simp add: lit_true_def asg_def)
next
  case False
  have a: "1 \<le> abs l" "abs l \<le> int n" using is_model_abs [OF m l] by simp_all
  then have neg: "l < 0" using False by simp
  then have "(- (- l) \<in> set m) = (- l \<notin> set m)"
    using is_model_exactly_one [OF m, of "- l"] a by simp
  then show ?thesis using l neg by (simp add: lit_true_def asg_def)
qed

lemma sat_by_iff: "sat_by m cs = (\<forall>c \<in> set cs. \<exists>l \<in> set c. l \<in> set m)"
  by (simp add: sat_by_def list_all_iff list_ex_iff)

lemma sat_by_satisfiable:
  assumes "is_model n m" "sat_by m cs"
  shows "satisfiable cs"
proof -
  have "satisfies (asg m) cs"
    unfolding satisfies_def
  proof
    fix c assume "c \<in> set cs"
    then obtain l where "l \<in> set c" "l \<in> set m" using assms(2) by (auto simp: sat_by_iff)
    then show "\<exists>l \<in> set c. lit_true (asg m) l"
      using lit_true_asg [OF assms(1)] by blast
  qed
  then show ?thesis unfolding satisfiable_def by blast
qed

lemma fold_max_ge: "a \<le> fold max xs (a::int)"
proof (induction xs arbitrary: a)
  case Nil show ?case by simp
next
  case (Cons y ys)
  have "a \<le> max y a" by simp
  also have "\<dots> \<le> fold max ys (max y a)" by (rule Cons.IH)
  finally show ?case by simp
qed

lemma fold_max_ub: "x \<in> set xs \<Longrightarrow> x \<le> fold max xs (a::int)"
proof (induction xs arbitrary: a)
  case Nil then show ?case by simp
next
  case (Cons y ys)
  show ?case
  proof (cases "x = y")
    case True
    have "y \<le> max y a" by simp
    also have "\<dots> \<le> fold max ys (max y a)" by (rule fold_max_ge)
    finally show ?thesis using True by simp
  next
    case False
    then have "x \<in> set ys" using Cons.prems by simp
    then have "x \<le> fold max ys (max y a)" by (rule Cons.IH)
    then show ?thesis by simp
  qed
qed

lemma fold_max_least: "a \<le> k \<Longrightarrow> (\<forall>x \<in> set xs. x \<le> k) \<Longrightarrow> fold max xs (a::int) \<le> k"
proof (induction xs arbitrary: a)
  case Nil then show ?case by simp
next
  case (Cons y ys)
  have "max y a \<le> k" using Cons.prems by simp
  moreover have "\<forall>x \<in> set ys. x \<le> k" using Cons.prems by simp
  ultimately have "fold max ys (max y a) \<le> k" by (rule Cons.IH)
  then show ?case by simp
qed

lemma nvars_ub: "c \<in> set cs \<Longrightarrow> l \<in> set c \<Longrightarrow> abs l \<le> int (nvars cs)"
proof -
  assume "c \<in> set cs" "l \<in> set c"
  then have "abs l \<in> set (map abs (concat cs))" by auto
  then have "abs l \<le> fold max (map abs (concat cs)) 0" by (rule fold_max_ub)
  moreover have "0 \<le> fold max (map abs (concat cs)) 0" by (rule fold_max_ge)
  ultimately show ?thesis by (simp add: nvars_def)
qed

lemma nvars_least:
  assumes "\<And>c l. c \<in> set cs \<Longrightarrow> l \<in> set c \<Longrightarrow> abs l \<le> int k"
  shows "nvars cs \<le> k"
proof -
  have "\<forall>x \<in> set (map abs (concat cs)). x \<le> int k"
    using assms by auto
  then have "fold max (map abs (concat cs)) 0 \<le> int k"
    by (intro fold_max_least) simp_all
  then show ?thesis by (simp add: nvars_def)
qed

lemma nvars_append_bounded:
  assumes "\<And>l. l \<in> set c \<Longrightarrow> abs l \<le> int (nvars cs)"
  shows "nvars (cs @ [c]) = nvars cs"
proof (rule antisym)
  show "nvars (cs @ [c]) \<le> nvars cs"
  proof (rule nvars_least)
    fix d l assume d: "d \<in> set (cs @ [c])" and l: "l \<in> set d"
    show "abs l \<le> int (nvars cs)"
    proof (cases "d \<in> set cs")
      case True then show ?thesis using l by (rule nvars_ub)
    next
      case False
      then have "d = c" using d by simp
      then show ?thesis using l assms by simp
    qed
  qed
  show "nvars cs \<le> nvars (cs @ [c])"
  proof (rule nvars_least)
    fix d l assume "d \<in> set cs" and l: "l \<in> set d"
    then have "d \<in> set (cs @ [c])" by simp
    then show "abs l \<le> int (nvars (cs @ [c]))" using l by (rule nvars_ub)
  qed
qed

lemma is_model_model_of: "is_model n (model_of a n)"
  by (simp add: is_model_def model_of_def comp_def)

lemma model_of_lit:
  assumes "lit_true a l" "abs l \<le> int n"
  shows "l \<in> set (model_of a n)"
proof (cases "0 < l")
  case True
  then have "a l" using assms by (simp add: lit_true_def)
  moreover have "nat l \<in> set [1..<Suc n]" using True assms by auto
  ultimately show ?thesis using True unfolding model_of_def set_map
    by (intro image_eqI [where x = "nat l"]) simp_all
next
  case False
  then have "l < 0" "\<not> a (- l)" using assms by (auto simp: lit_true_def)
  moreover then have "nat (- l) \<in> set [1..<Suc n]" using assms by auto
  ultimately show ?thesis unfolding model_of_def set_map
    by (intro image_eqI [where x = "nat (- l)"]) simp_all
qed

lemma satisfiable_sat_by:
  assumes "satisfiable cs"
  shows "\<exists>m. is_model (nvars cs) m \<and> sat_by m cs"
proof -
  from assms obtain a where a: "satisfies a cs" by (auto simp: satisfiable_def)
  have "sat_by (model_of a (nvars cs)) cs"
    unfolding sat_by_iff
  proof (intro ballI)
    fix c assume c: "c \<in> set cs"
    then obtain l where l: "l \<in> set c" "lit_true a l" using a by (auto simp: satisfies_def)
    then have "l \<in> set (model_of a (nvars cs))"
      using nvars_ub [OF c, of l] by (intro model_of_lit) simp_all
    with l show "\<exists>l \<in> set c. l \<in> set (model_of a (nvars cs))" by blast
  qed
  then show ?thesis using is_model_model_of by blast
qed

lemma oracle_ok_brute_solve: "oracle_ok brute_solve"
  unfolding oracle_ok_def
proof
  fix cs
  show "case brute_solve cs of None \<Rightarrow> \<not> satisfiable cs
        | Some m \<Rightarrow> is_model (nvars cs) m \<and> sat_by m cs"
  proof (cases "brute_solve cs")
    case None
    then have "\<forall>m \<in> set (all_models (nvars cs)). \<not> sat_by m cs"
      by (simp add: brute_solve_def find_None_iff)
    then have "\<not> satisfiable cs"
      using satisfiable_sat_by [of cs] by (auto simp: is_model_iff)
    with None show ?thesis by simp
  next
    case (Some m)
    then have "m \<in> set (all_models (nvars cs)) \<and> sat_by m cs"
      unfolding brute_solve_def find_Some_iff by (metis nth_mem)
    with Some show ?thesis by (simp add: is_model_iff)
  qed
qed

lemma oracle_ok_Some:
  "oracle_ok solve \<Longrightarrow> solve cs = Some m \<Longrightarrow> is_model (nvars cs) m \<and> sat_by m cs"
  unfolding oracle_ok_def by (metis option.simps(5))

lemma oracle_ok_None: "oracle_ok solve \<Longrightarrow> solve cs = None \<Longrightarrow> \<not> satisfiable cs"
  unfolding oracle_ok_def by (metis option.simps(4))

lemma oracle_ok_iff: "oracle_ok solve \<Longrightarrow> (solve cs \<noteq> None) = satisfiable cs"
  using oracle_ok_Some oracle_ok_None sat_by_satisfiable by (cases "solve cs") blast+

lemma blocking_clause_set: "set (blocking_clause m) = uminus ` {v \<in> set m. 0 < v}"
  by (auto simp: blocking_clause_def)

lemma sat_by_blocking:
  assumes m: "is_model n m" and m': "is_model n m'"
  shows "sat_by m' [blocking_clause m] = (\<not> {v \<in> set m. 0 < v} \<subseteq> {v \<in> set m'. 0 < v})"
proof -
  have "sat_by m' [blocking_clause m] = (\<exists>v \<in> set m. 0 < v \<and> - v \<in> set m')"
    by (auto simp: sat_by_iff blocking_clause_set)
  also have "\<dots> = (\<exists>v \<in> set m. 0 < v \<and> v \<notin> set m')"
  proof -
    have "\<And>v. v \<in> set m \<Longrightarrow> 0 < v \<Longrightarrow> (- v \<in> set m') = (v \<notin> set m')"
    proof -
      fix v assume "v \<in> set m" "0 < v"
      then have "1 \<le> v" "v \<le> int n" using is_model_abs [OF m, of v] by simp_all
      then show "(- v \<in> set m') = (v \<notin> set m')" by (rule is_model_exactly_one [OF m'])
    qed
    then show ?thesis by blast
  qed
  also have "\<dots> = (\<not> {v \<in> set m. 0 < v} \<subseteq> {v \<in> set m'. 0 < v})" by blast
  finally show ?thesis .
qed

lemma blocking_blocks_itself: "is_model n m \<Longrightarrow> \<not> sat_by m [blocking_clause m]"
  using sat_by_blocking [of n m m] by simp

lemma sat_by_append: "sat_by m (cs @ ds) = (sat_by m cs \<and> sat_by m ds)"
  by (simp add: sat_by_def)

lemma nvars_blocking:
  assumes "is_model (nvars cs) m"
  shows "nvars (cs @ [blocking_clause m]) = nvars cs"
proof (rule nvars_append_bounded)
  fix l assume "l \<in> set (blocking_clause m)"
  then obtain v where "v \<in> set m" "l = - v" by (auto simp: blocking_clause_set)
  then show "abs l \<le> int (nvars cs)" using is_model_abs [OF assms, of v] by simp
qed

lemma length_filter_strict:
  assumes "x \<in> set xs" "P x" "\<not> Q x" "\<And>y. Q y \<Longrightarrow> P y"
  shows "length (filter Q xs) < length (filter P xs)"
proof -
  have "filter Q xs = filter Q (filter P xs)"
    using assms(4) by (induction xs) auto
  moreover have "x \<in> set (filter P xs)" using assms by simp
  then have "length (filter Q (filter P xs)) < length (filter P xs)"
    using assms(3) by (rule length_filter_less)
  ultimately show ?thesis by simp
qed

lemma remaining_decreases:
  assumes "is_model (nvars cs) m" "sat_by m cs"
  shows "remaining (cs @ [blocking_clause m]) < remaining cs"
  unfolding remaining_def nvars_blocking [OF assms(1)]
proof (rule length_filter_strict [of m])
  show "m \<in> set (all_models (nvars cs))" using assms(1) by (simp add: is_model_iff)
  show "sat_by m cs" by (rule assms(2))
  show "\<not> sat_by m (cs @ [blocking_clause m])"
    using blocking_blocks_itself [OF assms(1)] by (simp add: sat_by_append)
  show "\<And>y. sat_by y (cs @ [blocking_clause m]) \<Longrightarrow> sat_by y cs"
    by (simp add: sat_by_append)
qed

lemma solve_loop_total:
  assumes ok: "oracle_ok solve"
  shows "\<exists>r. solve_loop solve st cs acc = Some r \<and>
             (\<forall>p \<in> set r. p \<in> set acc \<or>
                (\<exists>m. is_model (nvars cs) m \<and> sat_by m cs \<and> p = candidate st m))"
proof (induction "remaining cs" arbitrary: cs acc rule: less_induct)
  case less
  show ?case
  proof (cases "solve cs")
    case None
    then have "solve_loop solve st cs acc = Some acc"
      by (subst solve_loop.simps) simp
    then show ?thesis by simp
  next
    case (Some m)
    let ?cs = "cs @ [blocking_clause m]"
    let ?acc = "if is_valid_mwp st (candidate st m) then acc @ [candidate st m] else acc"
    have m: "is_model (nvars cs) m" "sat_by m cs"
      using oracle_ok_Some [OF ok Some] by simp_all
    have "remaining ?cs < remaining cs" using m by (rule remaining_decreases)
    then obtain r where r: "solve_loop solve st ?cs ?acc = Some r"
      and inv: "\<forall>p \<in> set r. p \<in> set ?acc \<or>
                (\<exists>m'. is_model (nvars ?cs) m' \<and> sat_by m' ?cs \<and> p = candidate st m')"
      using less [of ?cs ?acc] by blast
    have step: "solve_loop solve st cs acc = solve_loop solve st ?cs ?acc"
      using Some by (subst solve_loop.simps) simp
    have "\<forall>p \<in> set r. p \<in> set acc \<or>
            (\<exists>m'. is_model (nvars cs) m' \<and> sat_by m' cs \<and> p = candidate st m')"
    proof
      fix p assume "p \<in> set r"
      then consider "p \<in> set ?acc"
        | m' where "is_model (nvars ?cs) m'" "sat_by m' ?cs" "p = candidate st m'"
        using inv by blast
      then show "p \<in> set acc \<or>
            (\<exists>m'. is_model (nvars cs) m' \<and> sat_by m' cs \<and> p = candidate st m')"
      proof cases
        case 1
        then have "p \<in> set acc \<or> p = candidate st m" by (auto split: if_splits)
        then show ?thesis using m by blast
      next
        case 2
        then show ?thesis
          using nvars_blocking [OF m(1)] by (auto simp: sat_by_append)
      qed
    qed
    with step r show ?thesis by simp
  qed
qed

lemma find_mwps_total:
  assumes ok: "oracle_ok solve"
  shows "\<exists>res. find_mwps solve st = Some res"
proof (cases "generate_rules_and_cnf st")
  case (Inl e)
  then show ?thesis by (simp add: find_mwps_def)
next
  case (Inr x)
  obtain st1 cnf where x: "x = (st1, cnf)" by (cases x)
  obtain r where "solve_loop solve st1 cnf [] = Some r"
    using solve_loop_total [OF ok, of st1 cnf "[]"] by blast
  then show ?thesis using Inr x by (simp add: find_mwps_def)
qed

lemma filter_minimal_subset: "set (filter_minimal_mwps xs) \<subseteq> set xs"
  by (auto simp: filter_minimal_mwps_def)

lemma find_mwps_products:
  assumes ok: "oracle_ok solve" and r: "root st = Some r"
  shows "\<exists>st1 cnf ps. generate_rules_and_cnf st = Inr (st1, cnf) \<and>
           find_mwps solve st = Some (Inr (st1, ps)) \<and>
           (\<forall>p \<in> set ps. \<exists>m. is_model (nvars cnf) m \<and> sat_by m cnf \<and> p = candidate st1 m)"
proof -
  let ?st1 = "compiled_state st r"
  let ?cnf = "compiled_clauses (var_of ?st1) r (constraints st)"
  have g: "generate_rules_and_cnf st = Inr (?st1, ?cnf)" using r by (rule generate_eq)
  obtain xs where xs: "solve_loop solve ?st1 ?cnf [] = Some xs"
    and inv: "\<forall>p \<in> set xs. p \<in> set [] \<or>
                (\<exists>m. is_model (nvars ?cnf) m \<and> sat_by m ?cnf \<and> p = candidate ?st1 m)"
    using solve_loop_total [OF ok, of ?st1 ?cnf "[]"] by blast
  have "find_mwps solve st = Some (Inr (?st1, filter_minimal_mwps xs))"
    using g xs by (simp add: find_mwps_def)
  moreover have "\<forall>p \<in> set (filter_minimal_mwps xs).
      \<exists>m. is_model (nvars ?cnf) m \<and> sat_by m ?cnf \<and> p = candidate ?st1 m"
    using inv filter_minimal_subset [of xs] by auto
  ultimately show ?thesis using g by blast
qed

lemma example_parse:
  "(case parse_xml init example_doc of
      Inr st \<Rightarrow> root st = root example_model \<and> features st = features example_model
                \<and> constraints st = constraints example_model
    | Inl e \<Rightarrow> False)"
  by code_simp

lemma example_cnf:
  "(case generate_rules_and_cnf example_model of
      Inr (st, cnf) \<Rightarrow> cnf = [[1], [-1, 2], [-2, 1], [-2, 3, 4], [-3, -4], [-3, 2], [-4, 2]]
    | Inl e \<Rightarrow> False)"
  by code_simp

lemma example_mwps:
  "(case find_mwps brute_solve example_model of
      Some (Inr (st, ps)) \<Rightarrow>
        ps = [{Some ''root'', Some ''A'', Some ''C''}, {Some ''root'', Some ''A'', Some ''B''}]
    | _ \<Rightarrow> False)"
  by code_simp

lemma root_example_model: "root example_model = Some example_tree"
  by (simp add: example_model_def init_def)

lemma reg_ok_example_model: "reg_ok example_model"
  by (simp add: example_model_def init_def reg_ok_def)

lemma subfeatures_self: "f \<in> set (subfeatures f)"
  by (cases f) simp

lemma subfeatures_child: "c \<in> set (children f) \<Longrightarrow> c \<in> set (subfeatures f)"
  by (cases f) (auto intro: subfeatures_self)

lemma fclauses_own:
  "f \<in> set (subfeatures r) \<Longrightarrow> set (own_clauses V f) \<subseteq> set (fclauses V r)"
proof (induction r)
  case (Feature nm mand par chs grp)
  show ?case
  proof (cases "f = Feature nm mand par chs grp")
    case True
    then show ?thesis by (auto simp: own_clauses_def)
  next
    case False
    then obtain c where c: "c \<in> set chs" "f \<in> set (subfeatures c)"
      using Feature.prems by auto
    then have "set (own_clauses V f) \<subseteq> set (fclauses V c)" by (rule Feature.IH)
    then show ?thesis using c(1) by auto
  qed
qed

lemma fclauses_sub_compiled: "set (fclauses V r) \<subseteq> set (compiled_clauses V r cs)"
  by (simp add: compiled_clauses_def)

lemma combinations2_mem:
  "pr \<in> set (combinations2 xs) \<Longrightarrow> fst pr \<in> set xs \<and> snd pr \<in> set xs"
  by (induction xs) auto


lemma lits_of_mono: "set ns \<subseteq> set ns' \<Longrightarrow> lits_of V ns \<subseteq> lits_of V ns'"
  by (auto simp: lits_of_def)

lemma lits_of_I: "k \<in> set ns \<Longrightarrow> V k \<in> lits_of V ns \<and> - V k \<in> lits_of V ns"
  by (auto simp: lits_of_def)

lemma own_clauses_lits:
  assumes "c \<in> set (own_clauses V f)" "l \<in> set c"
  shows "l \<in> lits_of V (name f # pc_names f @ group_names f)"
proof -
  let ?ns = "name f # pc_names f @ group_names f"
  have nm: "name f \<in> set ?ns" by simp
  have ch: "\<And>k. group f = Some ''XOR'' \<or> group f = Some ''OR'' \<Longrightarrow>
               k \<in> set (map name (children f)) \<Longrightarrow> k \<in> set ?ns"
    by (auto simp: group_names_def)
  have pa: "truthy (parent f) \<Longrightarrow> the (parent f) \<in> set ?ns"
    by (simp add: pc_names_def)
  consider (r) "c \<in> set (root_clauses (V (name f)) f)"
    | (p) "c \<in> set (pc_clauses (V (name f)) V f)"
    | (g) "c \<in> set (group_clauses (V (name f)) V f)"
    using assms(1) by (auto simp: own_clauses_def)
  then show ?thesis
  proof cases
    case r
    then have "l = V (name f)" using assms(2) by (auto simp: root_clauses_def split: if_splits)
    then show ?thesis using lits_of_I [OF nm] by simp
  next
    case p
    then have t: "truthy (parent f)" by (auto simp: pc_clauses_def split: if_splits)
    from p assms(2) have "l \<in> {V (name f), - V (name f), V (the (parent f)), - V (the (parent f))}"
      by (auto simp: pc_clauses_def split: if_splits)
    then show ?thesis using lits_of_I [OF nm] lits_of_I [OF pa [OF t]] by auto
  next
    case g
    then have grp: "group f = Some ''XOR'' \<or> group f = Some ''OR''"
      by (auto simp: group_clauses_def split: if_splits)
    from g assms(2) have "l = - V (name f) \<or> (\<exists>k \<in> set (map name (children f)). l = V k \<or> l = - V k)"
      using combinations2_mem [of _ "map name (children f)"]
      by (fastforce simp: group_clauses_def split: if_splits)
    then show ?thesis
      using lits_of_I [OF nm] lits_of_I [OF ch [OF grp]] by auto
  qed
qed

lemma fnames_own: "set (name f # pc_names f @ group_names f) \<subseteq> set (fnames f)"
  by (cases f) auto

lemma fclauses_lits:
  "c \<in> set (fclauses V r) \<Longrightarrow> l \<in> set c \<Longrightarrow> l \<in> lits_of V (fnames r)"
proof (induction r)
  case (Feature nm mand par chs grp)
  let ?f = "Feature nm mand par chs grp"
  show ?case
  proof (cases "c \<in> set (own_clauses V ?f)")
    case True
    then have "l \<in> lits_of V (name ?f # pc_names ?f @ group_names ?f)"
      using Feature.prems(2) by (rule own_clauses_lits)
    then show ?thesis using lits_of_mono [OF fnames_own [of ?f]] by blast
  next
    case False
    then obtain ch where ch: "ch \<in> set chs" "c \<in> set (fclauses V ch)"
      using Feature.prems(1) by (auto simp: own_clauses_def)
    then have "l \<in> lits_of V (fnames ch)" using Feature.prems(2) by (rule Feature.IH)
    moreover have "set (fnames ch) \<subseteq> set (fnames ?f)" using ch(1) by auto
    ultimately show ?thesis using lits_of_mono by blast
  qed
qed

lemma compiled_clauses_lits:
  assumes "c \<in> set (compiled_clauses V r cs)" "l \<in> set c"
  shows "l \<in> lits_of V (compiled_names r cs)"
proof (cases "c \<in> set (fclauses V r)")
  case True
  then have "l \<in> lits_of V (fnames r)" using assms(2) by (rule fclauses_lits)
  then show ?thesis
    using lits_of_mono [of "fnames r" "compiled_names r cs"] by (auto simp: compiled_names_def)
next
  case False
  then obtain k where k: "k \<in> set cs" "c \<in> set (cclauses V k)"
    using assms(1) by (auto simp: compiled_clauses_def)
  then have m: "matches_filter k" and "c = [- V ''ByLocation'', V ''Location'']"
    by (auto simp: cclauses_def split: if_splits)
  then have "l = - V ''ByLocation'' \<or> l = V ''Location''" using assms(2) by auto
  moreover have "''ByLocation'' \<in> set (compiled_names r cs)" "''Location'' \<in> set (compiled_names r cs)"
    using k(1) m by (auto simp: compiled_names_def cnames_def)
  ultimately show ?thesis using lits_of_I by blast
qed

lemma nvars_compiled_lt:
  assumes ok: "reg_ok st" and dom: "set (compiled_names r cs) \<subseteq> dom (var_map st)"
  shows "int (nvars (compiled_clauses (var_of st) r cs)) < next_var st"
proof -
  have pos: "0 < next_var st" using ok by (rule reg_okD3)
  have "nvars (compiled_clauses (var_of st) r cs) \<le> nat (next_var st - 1)"
  proof (rule nvars_least)
    fix c l assume "c \<in> set (compiled_clauses (var_of st) r cs)" "l \<in> set c"
    then have "l \<in> lits_of (var_of st) (compiled_names r cs)" by (rule compiled_clauses_lits)
    then obtain k where k: "k \<in> set (compiled_names r cs)" "abs l = abs (var_of st k)"
      by (auto simp: lits_of_def)
    then obtain v where v: "var_map st k = Some v" using dom by auto
    then have "0 < v \<and> v < next_var st" using reg_okD1 [OF ok v] by simp
    then show "abs l \<le> int (nat (next_var st - 1))"
      using k(2) var_of_registered [OF v] by simp
  qed
  then show ?thesis using pos by simp
qed

lemma emits_selection_step:
  "emits (selection_step sel nm) [nm] [] (\<lambda>V. [[if Some nm \<in> sel then V nm else - V nm]])"
proof -
  let ?G = "\<lambda>v (acc :: fm \<times> clause list).
              (add_rules (fst acc) [], snd acc @ [[if Some nm \<in> sel then v else - v]])"
  have "emits (\<lambda>acc. case get_var (fst acc) nm of (v, st1) \<Rightarrow> ?G v (st1, snd acc)) [nm] []
          (\<lambda>V. [[if Some nm \<in> sel then V nm else - V nm]])"
    by (rule emits_bind) (rule emits_const)
  moreover have "(\<lambda>acc. case get_var (fst acc) nm of (v, st1) \<Rightarrow> ?G v (st1, snd acc))
                 = selection_step sel nm"
    by (auto simp: fun_eq_iff selection_step_def split: prod.splits)
  ultimately show ?thesis by simp
qed

lemma emits_selection:
  "emits (fold (selection_step sel) names) names [] (\<lambda>V. selection_clauses V sel names)"
proof -
  have "emits (fold (selection_step sel) names) (concat (map (\<lambda>n. [n]) names))
          (concat (map (\<lambda>n. []) names))
          (\<lambda>V. concat (map (\<lambda>n. [[if Some n \<in> sel then V n else - V n]]) names))"
    by (rule emits_fold) (rule emits_selection_step)
  moreover have "concat (map (\<lambda>n. [n]) names) = names" by (induction names) simp_all
  moreover have "concat (map (\<lambda>n. []) names) = ([] :: string list)" by (induction names) simp_all
  moreover have "\<And>V. concat (map (\<lambda>n. [[if Some n \<in> sel then V n else - V n]]) names)
                   = selection_clauses V sel names"
    by (induction names) (simp_all add: selection_clauses_def)
  ultimately show ?thesis by simp
qed

lemma check_feature_keeps: "set msgs \<subseteq> set (check_feature sel f msgs)"
proof (induction f arbitrary: msgs)
  case (Feature nm mand par chs grp)
  have fold_keeps: "\<And>cs ms. set cs \<subseteq> set chs \<Longrightarrow>
      set ms \<subseteq> set (fold (\<lambda>child a. check_feature sel child a) cs ms)"
  proof -
    fix cs ms show "set cs \<subseteq> set chs \<Longrightarrow>
      set ms \<subseteq> set (fold (\<lambda>child a. check_feature sel child a) cs ms)"
    proof (induction cs arbitrary: ms)
      case Nil show ?case by simp
    next
      case (Cons c cs)
      have "set ms \<subseteq> set (check_feature sel c ms)" using Cons.prems by (intro Feature.IH) simp
      moreover have "set (check_feature sel c ms)
          \<subseteq> set (fold (\<lambda>child a. check_feature sel child a) cs (check_feature sel c ms))"
        using Cons.prems by (intro Cons.IH) simp
      ultimately show ?case by simp
    qed
  qed
  show ?case
    unfolding check_feature.simps Let_def
    by (rule order_trans [OF _ fold_keeps]) auto
qed

lemma fold_check_keeps:
  "set ms \<subseteq> set (fold (\<lambda>child a. check_feature sel child a) cs ms)"
proof (induction cs arbitrary: ms)
  case Nil show ?case by simp
next
  case (Cons c cs)
  show ?case using check_feature_keeps [of ms sel c] Cons [of "check_feature sel c ms"] by auto
qed

lemma check_feature_missing:
  assumes "g \<in> set (subfeatures f)" "mandatory g" "parent g \<in> sel" "Some (name g) \<notin> sel"
  shows "missing_msg g \<in> set (check_feature sel f msgs)"
  using assms(1)
proof (induction f arbitrary: msgs)
  case (Feature nm mand par chs grp)
  let ?f = "Feature nm mand par chs grp"
  have fold_finds: "\<And>cs ms. set cs \<subseteq> set chs \<Longrightarrow> (\<exists>c \<in> set cs. g \<in> set (subfeatures c)) \<Longrightarrow>
      missing_msg g \<in> set (fold (\<lambda>child a. check_feature sel child a) cs ms)"
  proof -
    fix cs ms show "set cs \<subseteq> set chs \<Longrightarrow> (\<exists>c \<in> set cs. g \<in> set (subfeatures c)) \<Longrightarrow>
      missing_msg g \<in> set (fold (\<lambda>child a. check_feature sel child a) cs ms)"
    proof (induction cs arbitrary: ms)
      case Nil then show ?case by simp
    next
      case (Cons c cs)
      show ?case
      proof (cases "g \<in> set (subfeatures c)")
        case True
        have "c \<in> set chs" using Cons.prems by simp
        then have "missing_msg g \<in> set (check_feature sel c ms)" using True by (rule Feature.IH)
        then show ?thesis using fold_check_keeps [of "check_feature sel c ms" sel cs] by auto
      next
        case False
        then have "\<exists>c \<in> set cs. g \<in> set (subfeatures c)" using Cons.prems by auto
        then show ?thesis using Cons.prems(1) Cons.IH by simp
      qed
    qed
  qed
  show ?case
  proof (cases "g = ?f")
    case True
    have "missing_msg g \<in> set (msgs @ [''Missing mandatory feature: '' @ nm])"
      using True by (simp add: missing_msg_def)
    then show ?thesis
      using assms(2-4) True
      unfolding check_feature.simps Let_def
      by (intro subsetD [OF fold_check_keeps]) auto
  next
    case False
    then have "\<exists>c \<in> set chs. g \<in> set (subfeatures c)" using Feature.prems by auto
    then show ?thesis
      unfolding check_feature.simps Let_def by (intro fold_finds) simp_all
  qed
qed

lemma compiled_clauses_cong:
  "(\<forall>n \<in> set (compiled_names r cs). V1 n = V2 n)
   \<Longrightarrow> compiled_clauses V1 r cs = compiled_clauses V2 r cs"
  by (rule emits_cong [OF emits_compile])

lemma compiled_clauses_touch:
  assumes "set (compiled_names r cs) \<subseteq> dom (var_map st)"
  shows "compiled_clauses (var_of (touch st ns)) r cs = compiled_clauses (var_of st) r cs"
proof (rule compiled_clauses_cong, rule ballI)
  fix n assume "n \<in> set (compiled_names r cs)"
  then have "n \<in> dom (var_map st)" using assms by blast
  then show "var_of (touch st ns) n = var_of st n" by (rule var_of_touch_stable)
qed

lemma validate_eq:
  assumes r: "root st = Some r"
  shows "validate_selection solve st sel =
     Inr (touch (compiled_state st r) (map fst (features st)),
          if solve (compiled_clauses (var_of (touch (compiled_state st r) (map fst (features st))))
                      r (constraints st)
                    @ selection_clauses
                        (var_of (touch (compiled_state st r) (map fst (features st))))
                        sel (map fst (features st))) \<noteq> None
          then \<lparr>isValid = True, messages = []\<rparr>
          else \<lparr>isValid = False, messages = violation_list r sel\<rparr>)"
proof -
  let ?st1 = "compiled_state st r"
  let ?names = "map fst (features st)"
  let ?st2 = "touch ?st1 ?names"
  let ?cnf = "compiled_clauses (var_of ?st1) r (constraints st)"
  have g: "generate_rules_and_cnf st = Inr (?st1, ?cnf)" using r by (rule generate_eq)
  have f: "fold (selection_step sel) (map fst (features ?st1)) (?st1, ?cnf)
           = (?st2, ?cnf @ selection_clauses (var_of ?st2) sel ?names)"
    using emits_apply [OF emits_selection, of sel ?names ?st1 ?cnf] by simp
  have c: "compiled_clauses (var_of ?st2) r (constraints st) = ?cnf"
    using compiled_names_registered [of r st] by (intro compiled_clauses_touch)
  have v: "get_violation_messages ?st2 sel = Inr (violation_list r sel)"
    using r by (simp add: get_violation_messages_def violation_list_def Let_def)
  show ?thesis
    unfolding validate_selection_def g sum.case prod.case f c v Let_def
    by simp
qed

lemma lit_true_pos: "0 < v \<Longrightarrow> lit_true a v = a v"
  by (simp add: lit_true_def)

lemma lit_true_neg: "0 < v \<Longrightarrow> lit_true a (- v) = (\<not> a v)"
  by (simp add: lit_true_def)

lemma satisfies_append: "satisfies a (cs @ ds) = (satisfies a cs \<and> satisfies a ds)"
  by (auto simp: satisfies_def)

lemma satisfiesD: "satisfies a cs \<Longrightarrow> c \<in> set cs \<Longrightarrow> \<exists>l \<in> set c. lit_true a l"
  by (simp add: satisfies_def)

lemma touch_next_var_mono: "next_var st \<le> next_var (touch st ns)"
proof (induction ns arbitrary: st)
  case Nil show ?case by simp
next
  case (Cons k ns)
  have "next_var st \<le> next_var (snd (get_var st k))"
    by (simp add: get_var_def split: option.splits)
  also have "\<dots> \<le> next_var (touch (snd (get_var st k)) ns)" by (rule Cons)
  finally show ?case by (simp add: touch_Cons)
qed

lemma touch_fresh:
  "var_map st nm = None \<Longrightarrow> var_map (touch st ns) nm = Some v \<Longrightarrow> next_var st \<le> v"
proof (induction ns arbitrary: st)
  case Nil then show ?case by simp
next
  case (Cons k ns)
  let ?s = "snd (get_var st k)"
  have t: "var_map (touch ?s ns) nm = Some v" using Cons.prems(2) by (simp add: touch_Cons)
  show ?case
  proof (cases "var_map ?s nm")
    case None
    then have "next_var ?s \<le> v" using t by (rule Cons.IH)
    moreover have "next_var st \<le> next_var ?s" by (simp add: get_var_def split: option.splits)
    ultimately show ?thesis by simp
  next
    case (Some w)
    then have "w = next_var st"
      using Cons.prems(1) by (auto simp: get_var_def split: option.splits if_splits)
    moreover have "var_map (touch ?s ns) nm = Some w" using Some by (rule touch_mono)
    ultimately show ?thesis using t by simp
  qed
qed

lemma candidate_iff:
  "(p \<in> candidate st m) = (\<exists>u \<in> set m. 0 < u \<and> p = reverse_map st u)"
  by (auto simp: candidate_def get_name_def)

lemma candidate_satisfies_selection:
  assumes ok: "reg_ok st1" and m: "is_model n m" and n: "int n < next_var st1"
  shows "satisfies (asg m) (selection_clauses (var_of (touch st1 names)) (candidate st1 m) names)"
  unfolding satisfies_def selection_clauses_def
proof
  let ?st2 = "touch st1 names"
  fix c assume "c \<in> set (map (\<lambda>nm. [if Some nm \<in> candidate st1 m then var_of ?st2 nm
                                          else - var_of ?st2 nm]) names)"
  then obtain nm where nm: "nm \<in> set names"
    and c: "c = [if Some nm \<in> candidate st1 m then var_of ?st2 nm else - var_of ?st2 nm]"
    by auto
  have ok2: "reg_ok ?st2" using ok by (rule reg_ok_touch)
  have "nm \<in> dom (var_map ?st2)" using nm by (simp add: dom_touch)
  then obtain v where v: "var_map ?st2 nm = Some v" by auto
  then have vo: "var_of ?st2 nm = v" by (rule var_of_registered)
  have vpos: "0 < v" using reg_okD1 [OF ok2 v] by simp
  show "\<exists>l \<in> set c. lit_true (asg m) l"
  proof (cases "Some nm \<in> candidate st1 m")
    case True
    then obtain u where u: "u \<in> set m" "0 < u" "reverse_map st1 u = Some nm"
      by (auto simp: candidate_iff)
    then have "var_map st1 nm = Some u" using reg_okD2 [OF ok] by simp
    then have "var_map ?st2 nm = Some u" by (rule touch_mono)
    then have "v = u" using v by simp
    then have "lit_true (asg m) v" using u vpos by (simp add: lit_true_pos asg_def)
    then show ?thesis using c True vo by simp
  next
    case False
    have "v \<notin> set m"
    proof
      assume vm: "v \<in> set m"
      have vn: "v \<le> int n" using is_model_abs [OF m vm] by linarith
      show False
      proof (cases "var_map st1 nm")
        case None
        then have "next_var st1 \<le> v" using v by (rule touch_fresh)
        then show False using vn n by simp
      next
        case (Some w)
        then have "var_map ?st2 nm = Some w" by (rule touch_mono)
        then have "w = v" using v by simp
        then have "reverse_map st1 v = Some nm" using reg_okD1 [OF ok Some] by simp
        then have "Some nm \<in> candidate st1 m" using vm vpos by (auto simp: candidate_iff)
        then show False using False by simp
      qed
    qed
    then have "lit_true (asg m) (- v)" using vpos by (simp add: lit_true_neg asg_def)
    then show ?thesis using c False vo by simp
  qed
qed

lemma sat_by_satisfies:
  assumes "is_model n m" "sat_by m cs"
  shows "satisfies (asg m) cs"
  unfolding satisfies_def
proof
  fix c assume "c \<in> set cs"
  then obtain l where "l \<in> set c" "l \<in> set m" using assms(2) by (auto simp: sat_by_iff)
  then show "\<exists>l \<in> set c. lit_true (asg m) l"
    using lit_true_asg [OF assms(1)] by blast
qed

lemma root_unit_clause:
  assumes "parent r = None"
  shows "[V (name r)] \<in> set (compiled_clauses V r cs)"
proof -
  have "[V (name r)] \<in> set (own_clauses V r)"
    using assms by (simp add: own_clauses_def root_clauses_def truthy_def)
  then show ?thesis
    using fclauses_own [OF subfeatures_self, of V r] fclauses_sub_compiled [of V r cs] by blast
qed

lemma name_in_fnames: "name r \<in> set (fnames r)"
  by (cases r) simp

lemma root_name_registered: "name r \<in> dom (var_map (compiled_state st r))"
  using compiled_names_registered [of r st] name_in_fnames [of r]
  by (auto simp: compiled_names_def)

lemma unsat_by_unit:
  assumes "[v] \<in> set cs" "[- v] \<in> set cs" "0 < v"
  shows "\<not> satisfiable cs"
proof
  assume "satisfiable cs"
  then obtain a where a: "satisfies a cs" by (auto simp: satisfiable_def)
  have "lit_true a v" using satisfiesD [OF a assms(1)] by simp
  moreover have "lit_true a (- v)" using satisfiesD [OF a assms(2)] by simp
  ultimately show False using assms(3) by (simp add: lit_true_pos lit_true_neg)
qed

lemma selection_clauses_mem:
  "nm \<in> set names \<Longrightarrow>
   [if Some nm \<in> sel then V nm else - V nm] \<in> set (selection_clauses V sel names)"
  by (auto simp: selection_clauses_def)

lemma parent_example_tree: "parent example_tree = None"
  by (simp add: example_tree_def)

lemma name_example_tree: "name example_tree = ''root''"
  by (simp add: example_tree_def)

lemma keys_example_model: "fst ` set (features example_model) = {''B'', ''C'', ''A'', ''root''}"
  by (simp add: example_model_def init_def)

lemma example_validation:
  "(case validate_selection brute_solve example_model {Some ''root''} of
      Inr (st, res) \<Rightarrow> \<not> isValid res \<and> messages res = [''Missing mandatory feature: A'']
    | Inl e \<Rightarrow> False)"
  by code_simp

lemma touch_set_constraints:
  "touch (st\<lparr>constraints := cs\<rparr>) ns = (touch st ns)\<lparr>constraints := cs\<rparr>"
proof (induction ns arbitrary: st)
  case Nil show ?case by simp
next
  case (Cons n ns)
  have "snd (get_var (st\<lparr>constraints := cs\<rparr>) n) = (snd (get_var st n))\<lparr>constraints := cs\<rparr>"
    by (simp add: get_var_def split: option.splits)
  with Cons show ?case by (simp add: touch_Cons)
qed

lemma var_of_set_constraints: "var_of (st\<lparr>constraints := cs\<rparr>) = var_of st"
  by (rule var_of_cong) simp_all

lemma compiled_skip:
  assumes "\<not> matches_filter c"
  shows "compiled_names r (cs1 @ c # cs2) = compiled_names r (cs1 @ cs2)"
    and "compiled_rules r (cs1 @ c # cs2) = compiled_rules r (cs1 @ cs2)"
    and "compiled_clauses V r (cs1 @ c # cs2) = compiled_clauses V r (cs1 @ cs2)"
  using assms
  by (simp_all add: compiled_names_def compiled_rules_def compiled_clauses_def
                    cnames_def crules_def cclauses_def)

lemma compiled_state_set_constraints:
  "compiled_state (st\<lparr>constraints := cs\<rparr>) r
   = (add_rules (touch (st\<lparr>logic_rules := []\<rparr>) (compiled_names r cs)) (compiled_rules r cs))
       \<lparr>constraints := cs\<rparr>"
proof -
  have sw: "st\<lparr>constraints := cs, logic_rules := []\<rparr> = st\<lparr>logic_rules := [], constraints := cs\<rparr>"
    by (cases st) simp
  have "touch (st\<lparr>constraints := cs, logic_rules := []\<rparr>) (compiled_names r cs)
        = (touch (st\<lparr>logic_rules := []\<rparr>) (compiled_names r cs))\<lparr>constraints := cs\<rparr>"
    unfolding sw by (rule touch_set_constraints)
  then show ?thesis
    by (simp add: compiled_state_def add_rules_def)
qed

lemma generate_skip:
  assumes "\<not> matches_filter c" and "root st = Some r"
  shows "\<exists>s cnf. generate_rules_and_cnf (st\<lparr>constraints := cs1 @ cs2\<rparr>) = Inr (s, cnf)
           \<and> generate_rules_and_cnf (st\<lparr>constraints := cs1 @ c # cs2\<rparr>)
               = Inr (s\<lparr>constraints := cs1 @ c # cs2\<rparr>, cnf)"
proof -
  let ?A = "st\<lparr>constraints := cs1 @ cs2\<rparr>" and ?B = "st\<lparr>constraints := cs1 @ c # cs2\<rparr>"
  let ?core = "add_rules (touch (st\<lparr>logic_rules := []\<rparr>) (compiled_names r (cs1 @ cs2)))
                 (compiled_rules r (cs1 @ cs2))"
  have sA: "compiled_state ?A r = ?core\<lparr>constraints := cs1 @ cs2\<rparr>"
    by (rule compiled_state_set_constraints)
  have sB: "compiled_state ?B r = ?core\<lparr>constraints := cs1 @ c # cs2\<rparr>"
    by (simp add: compiled_state_set_constraints compiled_skip [OF assms(1)])
  have gA: "generate_rules_and_cnf ?A
            = Inr (compiled_state ?A r, compiled_clauses (var_of (compiled_state ?A r)) r (cs1 @ cs2))"
    using generate_eq [of ?A r] assms(2) by simp
  have gB: "generate_rules_and_cnf ?B
            = Inr (compiled_state ?B r, compiled_clauses (var_of (compiled_state ?B r)) r (cs1 @ cs2))"
    using generate_eq [of ?B r] assms(2) by (simp add: compiled_skip [OF assms(1)])
  have "var_of (compiled_state ?A r) = var_of (compiled_state ?B r)"
    by (simp add: sA sB var_of_set_constraints)
  moreover have "compiled_state ?B r = (compiled_state ?A r)\<lparr>constraints := cs1 @ c # cs2\<rparr>"
    by (simp add: sA sB)
  ultimately show ?thesis using gA gB by simp
qed

lemma constraint_step_eq:
  "constraint_step c (st, cnf) =
     (if matches_filter c
      then (fst (constraint_step c (st, cnf)),
            cnf @ [[- var_of (fst (constraint_step c (st, cnf))) ''ByLocation'',
                    var_of (fst (constraint_step c (st, cnf))) ''Location'']])
      else (st, cnf))"
  using emits_apply [OF emits_constraint_step, of c st cnf]
  by (simp add: cnames_def crules_def cclauses_def)

lemma unsat_implication:
  assumes "[- p, f] \<in> set cs" "[p] \<in> set cs" "[- f] \<in> set cs" "0 < p" "0 < f"
  shows "\<not> satisfiable cs"
proof
  assume "satisfiable cs"
  then obtain a where a: "satisfies a cs" by (auto simp: satisfiable_def)
  have "a p" using satisfiesD [OF a assms(2)] assms(4) by (simp add: lit_true_pos)
  moreover have "\<not> a f" using satisfiesD [OF a assms(3)] assms(5) by (simp add: lit_true_neg)
  moreover have "\<not> a p \<or> a f"
    using satisfiesD [OF a assms(1)] assms(4,5) by (auto simp: lit_true_pos lit_true_neg)
  ultimately show False by blast
qed

lemma mandatory_edge_clauses:
  assumes "root st = Some r" and "f \<in> set (subfeatures r)" and "mandatory f"
    and "parent f = Some p" and "p \<noteq> []"
  shows "\<exists>st1 cnf. generate_rules_and_cnf st = Inr (st1, cnf)
           \<and> pc_clauses (var_of st1 (name f)) (var_of st1) f
               = [[- var_of st1 p, var_of st1 (name f)], [- var_of st1 (name f), var_of st1 p]]
           \<and> [- var_of st1 p, var_of st1 (name f)] \<in> set cnf
           \<and> [- var_of st1 (name f), var_of st1 p] \<in> set cnf
           \<and> (reg_ok st \<longrightarrow>
                 \<not> satisfiable (cnf @ [[var_of st1 p], [- var_of st1 (name f)]])
               \<and> \<not> satisfiable (cnf @ [[var_of st1 (name f)], [- var_of st1 p]]))"
proof -
  let ?st1 = "compiled_state st r"
  let ?V = "var_of ?st1"
  let ?cnf = "compiled_clauses ?V r (constraints st)"
  have g: "generate_rules_and_cnf st = Inr (?st1, ?cnf)" using assms(1) by (rule generate_eq)
  have t: "truthy (parent f)" using assms(4,5) by (simp add: truthy_def)
  have pc: "pc_clauses (?V (name f)) ?V f = [[- ?V p, ?V (name f)], [- ?V (name f), ?V p]]"
    using t assms(3,4) by (simp add: pc_clauses_def)
  have "set (own_clauses ?V f) \<subseteq> set ?cnf"
    using fclauses_own [OF assms(2), of ?V] fclauses_sub_compiled [of ?V r "constraints st"]
    by blast
  then have m1: "[- ?V p, ?V (name f)] \<in> set ?cnf" and m2: "[- ?V (name f), ?V p] \<in> set ?cnf"
    using pc by (auto simp: own_clauses_def)
  have "reg_ok st \<longrightarrow>
          \<not> satisfiable (?cnf @ [[?V p], [- ?V (name f)]])
        \<and> \<not> satisfiable (?cnf @ [[?V (name f)], [- ?V p]])"
  proof
    assume "reg_ok st"
    then have ok1: "reg_ok ?st1" by (rule reg_ok_compiled_state)
    have pp: "0 < ?V p" and pf: "0 < ?V (name f)" using ok1 by (rule var_of_pos)+
    have "\<not> satisfiable (?cnf @ [[?V p], [- ?V (name f)]])"
      using m1 pp pf by (intro unsat_implication [of "?V p" "?V (name f)"]) simp_all
    moreover have "\<not> satisfiable (?cnf @ [[?V (name f)], [- ?V p]])"
      using m2 pp pf by (intro unsat_implication [of "?V (name f)" "?V p"]) simp_all
    ultimately show "\<not> satisfiable (?cnf @ [[?V p], [- ?V (name f)]])
        \<and> \<not> satisfiable (?cnf @ [[?V (name f)], [- ?V p]])" by simp
  qed
  with g pc m1 m2 show ?thesis by blast
qed

lemma example_filter_constraint:
  "(case generate_rules_and_cnf
           (example_model\<lparr>constraints :=
              [\<lparr>englishStatement = ''Location is required to filter'', ctype = ''requires''\<rparr>,
               \<lparr>englishStatement = ''Payment is required to Checkout'', ctype = ''requires''\<rparr>]\<rparr>) of
      Inr (st, cnf) \<Rightarrow>
        cnf = [[1], [- 1, 2], [- 2, 1], [- 2, 3, 4], [- 3, - 4], [- 3, 2], [- 4, 2], [- 5, 6]]
    | Inl e \<Rightarrow> False)"
  by code_simp

lemma fclauses_cong:
  "(\<forall>n \<in> set (fnames r). V1 n = V2 n) \<Longrightarrow> fclauses V1 r = fclauses V2 r"
  by (rule emits_cong [OF emits_process_feature])

lemma cclauses_concat:
  "concat (map (cclauses V) cs)
   = map (\<lambda>k. [- V ''ByLocation'', V ''Location'']) (filter matches_filter cs)"
  by (induction cs) (simp_all add: cclauses_def)

lemma var_of_compiled_tree:
  assumes "n \<in> set (fnames r)"
  shows "var_of (compiled_state st r) n = var_of (touch st (fnames r)) n"
proof -
  let ?cn = "concat (map cnames (constraints st))"
  have "n \<in> dom (var_map (touch st (fnames r)))" using assms by (simp add: dom_touch)
  then have "var_of (touch (touch st (fnames r)) ?cn) n = var_of (touch st (fnames r)) n"
    by (rule var_of_touch_stable)
  then show ?thesis
    by (simp add: var_of_compiled_state compiled_names_def touch_append)
qed

lemma generate_tree_then_constraints:
  assumes "root st = Some r"
  shows "\<exists>st0 cnf0 st1 cnf1.
           generate_rules_and_cnf (st\<lparr>constraints := []\<rparr>) = Inr (st0, cnf0)
         \<and> generate_rules_and_cnf st = Inr (st1, cnf1)
         \<and> cnf1 = cnf0 @ map (\<lambda>k. [- var_of st1 ''ByLocation'', var_of st1 ''Location''])
                             (filter matches_filter (constraints st))"
proof -
  let ?A = "st\<lparr>constraints := []\<rparr>"
  let ?st0 = "compiled_state ?A r" and ?st1 = "compiled_state st r"
  have g0: "generate_rules_and_cnf ?A = Inr (?st0, fclauses (var_of ?st0) r)"
    using generate_eq [of ?A r] assms by (simp add: compiled_clauses_def)
  have g1: "generate_rules_and_cnf st
            = Inr (?st1, fclauses (var_of ?st1) r
                         @ map (\<lambda>k. [- var_of ?st1 ''ByLocation'', var_of ?st1 ''Location''])
                               (filter matches_filter (constraints st)))"
    using generate_eq [of st r] assms by (simp add: compiled_clauses_def cclauses_concat)
  have "\<forall>n \<in> set (fnames r). var_of ?st1 n = var_of ?st0 n"
  proof
    fix n assume n: "n \<in> set (fnames r)"
    have "var_of ?st1 n = var_of (touch st (fnames r)) n" using n by (rule var_of_compiled_tree)
    moreover have "var_of ?st0 n = var_of (touch ?A (fnames r)) n"
      using n by (rule var_of_compiled_tree)
    moreover have "var_of (touch ?A (fnames r)) = var_of (touch st (fnames r))"
      by (simp add: touch_set_constraints var_of_set_constraints)
    ultimately show "var_of ?st1 n = var_of ?st0 n" by simp
  qed
  then have "fclauses (var_of ?st1) r = fclauses (var_of ?st0) r" by (rule fclauses_cong)
  then show ?thesis using g0 g1 by simp
qed

lemma filter_constraint_matches:
  "ctype filter_constraint = ''requires'' \<and> contains (englishStatement filter_constraint) ''filter''"
  by code_simp

lemma other_constraint_no_match:
  "\<not> (ctype other_constraint = ''requires'' \<and> contains (englishStatement other_constraint) ''filter'')"
  by code_simp

lemma example_constraint_cnf:
  "map_sum fst snd
     (generate_rules_and_cnf
        (example_model\<lparr>constraints := [filter_constraint, other_constraint]\<rparr>))
   = Inr [[1], [- 1, 2], [- 2, 1], [- 2, 3, 4], [- 3, - 4], [- 3, 2], [- 4, 2], [- 5, 6]]"
  by code_simp








lemma example_xor_selection:
  "(case generate_rules_and_cnf example_model of
      Inr (st, cnf) \<Rightarrow>
        brute_solve (cnf @ [[var_of st ''A''], [var_of st ''B''], [var_of st ''C'']]) = None
        \<and> brute_solve (cnf @ [[var_of st ''A''], [var_of st ''B''], [- var_of st ''C'']])
            = Some [1, 2, 3, - 4]
        \<and> brute_solve (cnf @ [[var_of st ''A''], [- var_of st ''B''], [var_of st ''C'']])
            = Some [1, 2, - 3, 4]
    | Inl e \<Rightarrow> False)"
  by code_simp

lemma keeps_rest_refl: "keeps_rest st st"
  by (simp add: keeps_rest_def)

lemma keeps_rest_trans: "keeps_rest a b \<Longrightarrow> keeps_rest b c \<Longrightarrow> keeps_rest a c"
  by (auto simp: keeps_rest_def)

lemma keeps_rest_update:
  "keeps_rest st st1 \<Longrightarrow> keeps_rest st (st1\<lparr>features := AList.update nm f (features st1)\<rparr>)"
  by (auto simp: keeps_rest_def dom_update)

lemma parse_feature_state:
  "(case parse_feature st e par of
      Inl (err, st') \<Rightarrow> keeps_rest st st' \<and> parse_error err
    | Inr (f, st') \<Rightarrow> keeps_rest st st' \<and> name f \<in> fst ` set (features st') \<and> parent f = par)"
  and parse_children_state:
  "(case parse_children st cs nm acc of
      Inl (err, st') \<Rightarrow> keeps_rest st st' \<and> parse_error err
    | Inr (fs, st') \<Rightarrow> keeps_rest st st')"
proof (induction st e par and st cs nm acc rule: parse_feature_parse_children.induct)
  case (1 st e par)
  show ?case
  proof (cases "map_of (attrib e) ''name''")
    case None
    then show ?thesis
      by (subst parse_feature.simps) (simp add: keeps_rest_refl parse_error_def)
  next
    case (Some nm)
    note nm = Some
    show ?thesis
    proof (cases "find (\<lambda>k. tag k = ''group'') (kids e)")
      case None
      note g = None
      have IH: "case parse_children st (filter (\<lambda>k. tag k = ''feature'') (kids e)) nm [] of
                  Inl (err, st') \<Rightarrow> keeps_rest st st' \<and> parse_error err
                | Inr (fs, st') \<Rightarrow> keeps_rest st st'"
        using "1.IH"(1) [OF nm refl g] .
      show ?thesis
      proof (cases "parse_children st (filter (\<lambda>k. tag k = ''feature'') (kids e)) nm []")
        case (Inl x)
        then show ?thesis using IH nm g
          by (subst parse_feature.simps) (auto simp: Let_def)
      next
        case (Inr y)
        then show ?thesis using IH nm g
          by (subst parse_feature.simps)
             (auto simp: Let_def keeps_rest_update dom_update split: prod.splits)
      qed
    next
      case (Some g)
      note g = Some
      show ?thesis
      proof (cases "map_of (attrib g) ''type''")
        case None
        then show ?thesis using nm g
          by (subst parse_feature.simps) (simp add: Let_def keeps_rest_refl parse_error_def)
      next
        case (Some ty)
        have IH: "case parse_children st (kids g) nm [] of
                  Inl (err, st') \<Rightarrow> keeps_rest st st' \<and> parse_error err
                | Inr (fs, st') \<Rightarrow> keeps_rest st st'"
          using "1.IH"(2) [OF nm refl g Some] .
        show ?thesis
        proof (cases "parse_children st (kids g) nm []")
          case (Inl x)
          then show ?thesis using IH nm g Some
            by (subst parse_feature.simps) (auto simp: Let_def)
        next
          case (Inr y)
          then show ?thesis using IH nm g Some
            by (subst parse_feature.simps)
               (auto simp: Let_def keeps_rest_update dom_update split: prod.splits)
        qed
      qed
    qed
  qed
next
  case (2 st nm acc)
  show ?case by (simp add: keeps_rest_refl)
next
  case (3 st c cs nm acc)
  show ?case
  proof (cases "parse_feature st c (Some nm)")
    case (Inl x)
    then show ?thesis using "3.IH"(1) by (auto split: prod.splits)
  next
    case (Inr y)
    obtain f st1 where y: "y = (f, st1)" by (cases y)
    have k1: "keeps_rest st st1" using "3.IH"(1) Inr y by simp
    have "case parse_children st1 cs nm (acc @ [f]) of
            Inl (err, st') \<Rightarrow> keeps_rest st1 st' \<and> parse_error err
          | Inr (fs, st') \<Rightarrow> keeps_rest st1 st'"
      using "3.IH"(2) [OF Inr y [symmetric]] by simp
    then show ?thesis
      using Inr y k1 by (auto split: sum.splits prod.splits intro: keeps_rest_trans)
  qed
qed



lemma parse_constraints_state:
  "(case parse_constraints st cs of
      Inl (err, st') \<Rightarrow> keeps_model st st' \<and> err = TypeError
    | Inr st' \<Rightarrow> keeps_model st st')"
proof (induction cs arbitrary: st)
  case Nil
  show ?case by (simp add: keeps_model_def)
next
  case (Cons c cs)
  show ?case
  proof (cases "find (\<lambda>k. tag k = ''englishStatement'') (kids c)")
    case None
    then show ?thesis using Cons [of st] by simp
  next
    case (Some english)
    note en = Some
    show ?thesis
    proof (cases "elem_text english")
      case None
      then show ?thesis using en by (simp add: keeps_model_def)
    next
      case (Some body)
      let ?st1 = "st\<lparr>constraints := constraints st @
                       [\<lparr>englishStatement = body,
                         ctype = (if contains body ''required to'' then ''requires''
                                  else ''excludes'')\<rparr>]\<rparr>"
      have k: "keeps_model st ?st1" by (simp add: keeps_model_def)
      have tr: "\<And>s. keeps_model ?st1 s \<Longrightarrow> keeps_model st s"
        by (auto simp: keeps_model_def)
      have "parse_constraints st (c # cs) = parse_constraints ?st1 cs"
        using en Some by simp
      then show ?thesis
        using Cons [of ?st1] tr by (auto split: sum.splits prod.splits)
    qed
  qed
qed



lemma parse_xml_state:
  "(case parse_xml st doc of
      Inl (err, st') \<Rightarrow> only_extends st st'
    | Inr st' \<Rightarrow> only_extends st st'
        \<and> (\<exists>r. root st' = Some r \<and> parent r = None \<and> name r \<in> fst ` set (features st')))"
proof (cases "find (\<lambda>k. tag k = ''feature'') (kids doc)")
  case None
  then show ?thesis by (simp add: parse_xml_def only_extends_def)
next
  case (Some root_feature)
  show ?thesis
  proof (cases "parse_feature st root_feature None")
    case (Inl x)
    obtain err st' where x: "x = (err, st')" by (cases x)
    have "keeps_rest st st'" using parse_feature_state [where st = st and e = root_feature and par = None] Inl x by simp
    then have "only_extends st st'" by (simp add: keeps_rest_def only_extends_def)
    then show ?thesis using Some Inl x by (simp add: parse_xml_def)
  next
    case (Inr y)
    obtain f st1 where y: "y = (f, st1)" by (cases y)
    let ?st2 = "st1\<lparr>root := Some f\<rparr>"
    have f: "keeps_rest st st1" "name f \<in> fst ` set (features st1)" "parent f = None"
      using parse_feature_state [where st = st and e = root_feature and par = None] Inr y by simp_all
    have px: "parse_xml st doc
              = parse_constraints ?st2 (filter (\<lambda>k. tag k = ''constraint'') (descendants doc))"
      using Some Inr y by (simp add: parse_xml_def)
    have km: "\<And>s. keeps_model ?st2 s \<Longrightarrow>
                only_extends st s
                \<and> (\<exists>r. root s = Some r \<and> parent r = None \<and> name r \<in> fst ` set (features s))"
    proof -
      fix s assume k: "keeps_model ?st2 s"
      then obtain cs where cs: "constraints s = constraints st1 @ cs"
        by (auto simp: keeps_model_def)
      have eqs: "features s = features st1" "var_map s = var_map st1"
        "reverse_map s = reverse_map st1" "next_var s = next_var st1"
        "logic_rules s = logic_rules st1" "root s = Some f"
        using k by (simp_all add: keeps_model_def)
      have kr: "constraints st1 = constraints st" "var_map st1 = var_map st"
        "reverse_map st1 = reverse_map st" "next_var st1 = next_var st"
        "logic_rules st1 = logic_rules st"
        "fst ` set (features st) \<subseteq> fst ` set (features st1)"
        using f(1) by (simp_all add: keeps_rest_def)
      have "only_extends st s"
        unfolding only_extends_def using eqs kr cs by simp
      moreover have "\<exists>r. root s = Some r \<and> parent r = None \<and> name r \<in> fst ` set (features s)"
        using eqs f(2,3) by simp
      ultimately show "only_extends st s
                \<and> (\<exists>r. root s = Some r \<and> parent r = None \<and> name r \<in> fst ` set (features s))"
        by simp
    qed
    let ?cs = "filter (\<lambda>k. tag k = ''constraint'') (descendants doc)"
    show ?thesis
    proof (cases "parse_constraints ?st2 ?cs")
      case (Inl x)
      obtain err st' where x: "x = (err, st')" by (cases x)
      have "keeps_model ?st2 st'" using parse_constraints_state [of ?st2 ?cs] Inl x by simp
      then have "only_extends st st'" using km by blast
      then show ?thesis unfolding px using Inl x by simp
    next
      case (Inr st')
      have "keeps_model ?st2 st'" using parse_constraints_state [of ?st2 ?cs] Inr by simp
      then have "only_extends st st'
                \<and> (\<exists>r. root st' = Some r \<and> parent r = None \<and> name r \<in> fst ` set (features st'))"
        by (rule km)
      then show ?thesis unfolding px using Inr by simp
    qed
  qed
qed

lemma reg_ok_only_extends:
  assumes "only_extends st st'" and "reg_ok st"
  shows "reg_ok st'"
proof -
  have e: "var_map st' = var_map st" "reverse_map st' = reverse_map st"
    "next_var st' = next_var st"
    using assms(1) by (simp_all add: only_extends_def)
  show ?thesis using assms(2) unfolding reg_ok_def e .
qed

lemma parse_xml_model_ok:
  assumes "parse_xml st doc = Inr st'"
  shows "(reg_ok st \<longrightarrow> reg_ok st')
         \<and> (\<exists>r. root st' = Some r \<and> parent r = None \<and> name r \<in> fst ` set (features st'))"
proof -
  have "only_extends st st'
        \<and> (\<exists>r. root st' = Some r \<and> parent r = None \<and> name r \<in> fst ` set (features st'))"
    using parse_xml_state [of st doc] assms by simp
  then show ?thesis using reg_ok_only_extends [of st st'] by (intro conjI impI) (elim conjE, assumption)+
qed








section \<open>The minimality filter\<close>

text \<open>
  C5: the minimality filter returns exactly those candidates, in their order, for which
  no other candidate of the list is a strict subset of them; of the candidates
  \<open>{root, A, B}\<close> and \<open>{root, A, B, C}\<close> only \<open>{root, A, B}\<close> survives.
\<close>

theorem filter_minimal_mwps_spec:
  "filter_minimal_mwps mwps = filter (\<lambda>mwp. \<forall>other \<in> set mwps. \<not> other \<subset> mwp) mwps
   \<and> filter_minimal_mwps
         [{Some ''root'', Some ''A'', Some ''B''},
          {Some ''root'', Some ''A'', Some ''B'', Some ''C''}]
       = [{Some ''root'', Some ''A'', Some ''B''}]"
proof
  have "\<And>mwp. (\<not> list_ex (\<lambda>other. other \<noteq> mwp \<and> other \<subseteq> mwp) mwps)
             = (\<forall>other \<in> set mwps. \<not> other \<subset> mwp)"
    by (auto simp: list_ex_iff)
  then show "filter_minimal_mwps mwps
             = filter (\<lambda>mwp. \<forall>other \<in> set mwps. \<not> other \<subset> mwp) mwps"
    by (simp add: filter_minimal_mwps_def)
next
  show "filter_minimal_mwps
         [{Some ''root'', Some ''A'', Some ''B''},
          {Some ''root'', Some ''A'', Some ''B'', Some ''C''}]
       = [{Some ''root'', Some ''A'', Some ''B''}]"
    by code_simp
qed

theorem filter_minimal_mwps_witness:
  "filter_minimal_mwps [{1::nat}, {1, 2}, {3}] = [{1}, {3}]"
  using filter_minimal_mwps_spec [of "[{1::nat}, {1, 2}, {3}]"]
  by (auto simp: psubset_eq)

section \<open>The blocking clause\<close>

text \<open>
  C3, as the code has it: the clause added after a satisfying assignment holds the negation
  of every variable the assignment makes true. It rules out that assignment and every full
  assignment whose true variables include all of its true variables; a full assignment over
  the same variables stays admissible exactly when it makes one of those variables false.
  The first theorem shows that a different assignment can be ruled out as well: after the
  model \<open>[1, -2]\<close> the assignment \<open>[1, 2]\<close> violates the added clause.
\<close>

theorem blocking_clause_blocks_supersets:
  assumes "is_model n m" and "is_model n m'" and "solve clauses = Some m"
  shows "solve_loop solve st clauses mwps =
           solve_loop solve st (clauses @ [blocking_clause m])
             (if is_valid_mwp st (candidate st m) then mwps @ [candidate st m] else mwps)
         \<and> set (blocking_clause m) = uminus ` {v \<in> set m. 0 < v}
         \<and> \<not> sat_by m [blocking_clause m]
         \<and> sat_by m' [blocking_clause m] = (\<not> {v \<in> set m. 0 < v} \<subseteq> {v \<in> set m'. 0 < v})"
proof (intro conjI)
  show "solve_loop solve st clauses mwps =
           solve_loop solve st (clauses @ [blocking_clause m])
             (if is_valid_mwp st (candidate st m) then mwps @ [candidate st m] else mwps)"
    using assms(3) by (subst solve_loop.simps) simp
  show "set (blocking_clause m) = uminus ` {v \<in> set m. 0 < v}"
    by (rule blocking_clause_set)
  show "\<not> sat_by m [blocking_clause m]"
    using assms(1) by (rule blocking_blocks_itself)
  show "sat_by m' [blocking_clause m] = (\<not> {v \<in> set m. 0 < v} \<subseteq> {v \<in> set m'. 0 < v})"
    using assms(1,2) by (rule sat_by_blocking)
qed

theorem blocking_clause_witness:
  "is_model 2 [1, - 2] \<and> is_model 2 [- 1, 2] \<and> brute_solve [[1], [- 2, 2]] = Some [1, - 2]
   \<and> set (blocking_clause [1, - 2]) = {- 1}
   \<and> \<not> sat_by [1, - 2] [blocking_clause [1, - 2]]
   \<and> sat_by [- 1, 2] [blocking_clause [1, - 2]]"
proof -
  have h1: "is_model 2 [1, - 2]" by code_simp
  have h2: "is_model 2 [- 1, 2]" by code_simp
  have h3: "brute_solve [[1], [- 2, 2]] = Some [1, - 2]" by code_simp
  show ?thesis
    using blocking_clause_blocks_supersets
            [where solve = brute_solve and clauses = "[[1], [- 2, 2]]" and st = example_model
               and mwps = "[]", OF h1 h2 h3] h1 h2 h3
    by auto
qed

theorem blocking_clause_counterexample:
  "is_model 2 [1, - 2] \<and> is_model 2 [1, 2] \<and> [1, 2] \<noteq> [1, - 2 :: int]
   \<and> \<not> sat_by [1, 2] [blocking_clause [1, - 2]]"
  by code_simp

section \<open>Termination of the enumeration\<close>

text \<open>
  C4: with a solver that answers correctly, the solve/block loop returns from every clause
  list and every list of accepted candidates, and so \<open>find_mwps\<close> returns for every model.
\<close>

theorem find_mwps_terminates:
  "oracle_ok solve \<Longrightarrow>
     (\<exists>mwps. solve_loop solve st clauses acc = Some mwps) \<and> (\<exists>res. find_mwps solve st = Some res)"
  using solve_loop_total [of solve st clauses acc] find_mwps_total [of solve st] by blast

theorem find_mwps_terminates_witness:
  "oracle_ok brute_solve
   \<and> (\<exists>mwps. solve_loop brute_solve example_model [[1]] [] = Some mwps)
   \<and> (\<exists>res. find_mwps brute_solve example_model = Some res)"
  using find_mwps_terminates [OF oracle_ok_brute_solve, of example_model "[[1]]" "[]"]
        oracle_ok_brute_solve
  by simp

section \<open>The root feature\<close>

text \<open>
  C10: the root is selected in every outcome. For a model whose root has no parent and is
  a key of the feature map (as after every successful \<open>parse_xml\<close>), the compiled clause
  set contains the unit clause of the root's variable, every product returned by
  \<open>find_mwps\<close> contains the root's name, and \<open>validate_selection\<close> answers \<open>isValid = False\<close>
  for every selection without the root's name, the empty selection among them.
\<close>

theorem root_always_selected:
  assumes "oracle_ok solve" and "reg_ok st" and "root st = Some r" and "parent r = None"
    and "name r \<in> fst ` set (features st)"
  shows "(\<exists>st1 cnf. generate_rules_and_cnf st = Inr (st1, cnf)
            \<and> [var_of st1 (name r)] \<in> set cnf)
       \<and> (\<exists>st1 ps. find_mwps solve st = Some (Inr (st1, ps))
            \<and> (\<forall>p \<in> set ps. Some (name r) \<in> p))
       \<and> (\<forall>selected. Some (name r) \<notin> selected \<longrightarrow>
            (\<exists>st2 msgs. validate_selection solve st selected
                          = Inr (st2, \<lparr>isValid = False, messages = msgs\<rparr>)))
       \<and> (\<exists>st2 msgs. validate_selection solve st {}
                          = Inr (st2, \<lparr>isValid = False, messages = msgs\<rparr>))"
proof -
  let ?st1 = "compiled_state st r"
  let ?cnf = "compiled_clauses (var_of ?st1) r (constraints st)"
  have g: "generate_rules_and_cnf st = Inr (?st1, ?cnf)" using assms(3) by (rule generate_eq)
  have unit: "[var_of ?st1 (name r)] \<in> set ?cnf" using assms(4) by (rule root_unit_clause)
  have ok1: "reg_ok ?st1" using assms(2) by (rule reg_ok_compiled_state)
  have A: "\<exists>st1 cnf. generate_rules_and_cnf st = Inr (st1, cnf) \<and> [var_of st1 (name r)] \<in> set cnf"
    using g unit by blast
  have B: "\<exists>st1 ps. find_mwps solve st = Some (Inr (st1, ps)) \<and> (\<forall>p \<in> set ps. Some (name r) \<in> p)"
  proof -
    obtain st1 cnf ps where gp: "generate_rules_and_cnf st = Inr (st1, cnf)"
      and f: "find_mwps solve st = Some (Inr (st1, ps))"
      and inv: "\<forall>p \<in> set ps. \<exists>m. is_model (nvars cnf) m \<and> sat_by m cnf \<and> p = candidate st1 m"
      using find_mwps_products [OF assms(1,3)] by blast
    have eq: "st1 = ?st1" "cnf = ?cnf" using g gp by simp_all
    have "\<forall>p \<in> set ps. Some (name r) \<in> p"
    proof
      fix p assume "p \<in> set ps"
      then obtain m where m: "sat_by m ?cnf" "p = candidate ?st1 m" using inv eq by blast
      obtain v where v: "var_map ?st1 (name r) = Some v"
        using root_name_registered [of r st] by auto
      then have vo: "var_of ?st1 (name r) = v" by (rule var_of_registered)
      have "v \<in> set m" using m(1) unit vo by (auto simp: sat_by_iff)
      moreover have "0 < v" "reverse_map ?st1 v = Some (name r)"
        using reg_okD1 [OF ok1 v] by simp_all
      ultimately show "Some (name r) \<in> p" using m(2) by (auto simp: candidate_iff)
    qed
    with f show ?thesis by blast
  qed
  have C: "\<And>selected. Some (name r) \<notin> selected \<Longrightarrow>
            \<exists>st2 msgs. validate_selection solve st selected
                          = Inr (st2, \<lparr>isValid = False, messages = msgs\<rparr>)"
  proof -
    fix selected :: product
    assume out: "Some (name r) \<notin> selected"
    let ?names = "map fst (features st)"
    let ?st2 = "touch ?st1 ?names"
    let ?clauses = "compiled_clauses (var_of ?st2) r (constraints st)
                    @ selection_clauses (var_of ?st2) selected ?names"
    have "reg_ok ?st2" using ok1 by (rule reg_ok_touch)
    then have pos: "0 < var_of ?st2 (name r)" by (rule var_of_pos)
    have u1: "[var_of ?st2 (name r)] \<in> set ?clauses"
      using root_unit_clause [OF assms(4), of "var_of ?st2" "constraints st"] by simp
    have "name r \<in> set ?names" using assms(5) by simp
    then have u2: "[- var_of ?st2 (name r)] \<in> set ?clauses"
      using selection_clauses_mem [of "name r" ?names selected "var_of ?st2"] out by simp
    have "\<not> satisfiable ?clauses" using u1 u2 pos by (rule unsat_by_unit)
    then have "solve ?clauses = None" using oracle_ok_iff [OF assms(1), of ?clauses] by simp
    then show "\<exists>st2 msgs. validate_selection solve st selected
                          = Inr (st2, \<lparr>isValid = False, messages = msgs\<rparr>)"
      by (simp add: validate_eq [OF assms(3)])
  qed
  show ?thesis using A B C by simp
qed

theorem root_always_selected_witness:
  "oracle_ok brute_solve \<and> reg_ok example_model \<and> root example_model = Some example_tree
   \<and> parent example_tree = None \<and> name example_tree \<in> fst ` set (features example_model)
   \<and> (\<exists>st1 ps. find_mwps brute_solve example_model = Some (Inr (st1, ps))
         \<and> (\<forall>p \<in> set ps. Some ''root'' \<in> p))
   \<and> (\<exists>st2 msgs. validate_selection brute_solve example_model {}
                    = Inr (st2, \<lparr>isValid = False, messages = msgs\<rparr>))"
proof -
  have k: "name example_tree \<in> fst ` set (features example_model)"
    by (simp add: keys_example_model name_example_tree)
  show ?thesis
    using root_always_selected [OF oracle_ok_brute_solve reg_ok_example_model
            root_example_model parent_example_tree k]
          oracle_ok_brute_solve reg_ok_example_model root_example_model parent_example_tree k
    by (simp add: name_example_tree)
qed

section \<open>The validator and the enumerator agree\<close>

text \<open>
  C7: every product returned by \<open>find_mwps\<close>, given to \<open>validate_selection\<close> as the
  selection on the model as \<open>find_mwps\<close> left it, is reported valid with no diagnostics.
\<close>

theorem validator_accepts_products:
  assumes "oracle_ok solve" and "reg_ok st" and "root st = Some r"
  shows "\<exists>st1 ps. find_mwps solve st = Some (Inr (st1, ps))
           \<and> (\<forall>p \<in> set ps. \<exists>st2. validate_selection solve st1 p
                                    = Inr (st2, \<lparr>isValid = True, messages = []\<rparr>))"
proof -
  let ?st1 = "compiled_state st r"
  let ?cnf = "compiled_clauses (var_of ?st1) r (constraints st)"
  let ?names = "map fst (features st)"
  let ?st2 = "touch ?st1 ?names"
  have g: "generate_rules_and_cnf st = Inr (?st1, ?cnf)" using assms(3) by (rule generate_eq)
  have ok1: "reg_ok ?st1" using assms(2) by (rule reg_ok_compiled_state)
  have r1: "root ?st1 = Some r" using assms(3) by simp
  have idem: "compiled_state ?st1 r = ?st1" using assms(3) by (rule compiled_state_idem)
  have reg: "set (compiled_names r (constraints st)) \<subseteq> dom (var_map ?st1)"
    by (rule compiled_names_registered)
  have c2: "compiled_clauses (var_of ?st2) r (constraints st) = ?cnf"
    using reg by (rule compiled_clauses_touch)
  have n: "int (nvars ?cnf) < next_var ?st1" using ok1 reg by (rule nvars_compiled_lt)
  obtain st1 cnf ps where gp: "generate_rules_and_cnf st = Inr (st1, cnf)"
    and f: "find_mwps solve st = Some (Inr (st1, ps))"
    and inv: "\<forall>p \<in> set ps. \<exists>m. is_model (nvars cnf) m \<and> sat_by m cnf \<and> p = candidate st1 m"
    using find_mwps_products [OF assms(1,3)] by blast
  have eq: "st1 = ?st1" "cnf = ?cnf" using g gp by simp_all
  have "\<forall>p \<in> set ps. \<exists>st2. validate_selection solve st1 p
                                    = Inr (st2, \<lparr>isValid = True, messages = []\<rparr>)"
  proof
    fix p assume "p \<in> set ps"
    then obtain m where m: "is_model (nvars ?cnf) m" "sat_by m ?cnf" "p = candidate ?st1 m"
      using inv eq by blast
    let ?clauses = "?cnf @ selection_clauses (var_of ?st2) p ?names"
    have "satisfies (asg m) ?cnf" using m(1,2) by (rule sat_by_satisfies)
    moreover have "satisfies (asg m) (selection_clauses (var_of ?st2) p ?names)"
      unfolding m(3) using ok1 m(1) n by (rule candidate_satisfies_selection)
    ultimately have "satisfiable ?clauses"
      unfolding satisfiable_def satisfies_append by blast
    then have "solve ?clauses \<noteq> None" using oracle_ok_iff [OF assms(1), of ?clauses] by simp
    then have "validate_selection solve ?st1 p
                 = Inr (?st2, \<lparr>isValid = True, messages = []\<rparr>)"
      using validate_eq [OF r1, of solve p] by (simp add: idem c2)
    then show "\<exists>st2. validate_selection solve st1 p
                       = Inr (st2, \<lparr>isValid = True, messages = []\<rparr>)"
      using eq by blast
  qed
  with f show ?thesis by blast
qed

theorem validator_accepts_products_witness:
  "oracle_ok brute_solve \<and> reg_ok example_model \<and> root example_model = Some example_tree
   \<and> (\<exists>st1 ps. find_mwps brute_solve example_model = Some (Inr (st1, ps))
         \<and> (\<forall>p \<in> set ps. \<exists>st2. validate_selection brute_solve st1 p
                                    = Inr (st2, \<lparr>isValid = True, messages = []\<rparr>)))"
  using validator_accepts_products [OF oracle_ok_brute_solve reg_ok_example_model
          root_example_model]
        oracle_ok_brute_solve reg_ok_example_model root_example_model
  by simp

section \<open>The selection validator\<close>

text \<open>
  C6: \<open>validate_selection\<close> answers \<open>isValid = True\<close> exactly when the compiled clauses
  together with one unit clause per key of the feature map (the variable if the name is
  selected, its negation otherwise) are satisfiable, and then the diagnostics are empty.
  When it answers \<open>False\<close> the diagnostics hold \<open>Missing mandatory feature: <name>\<close> for
  every mandatory feature of the tree that is not selected while its parent is. In
  particular a selection with the root but without a mandatory child \<open>A\<close> of the root is
  invalid and the message for \<open>A\<close> is among the diagnostics.
\<close>

theorem validate_selection_spec:
  assumes "oracle_ok solve" and "root st = Some r"
  shows "\<exists>st1 cnf st2 res.
      generate_rules_and_cnf st = Inr (st1, cnf) \<and>
      validate_selection solve st selected = Inr (st2, res) \<and>
      isValid res
        = satisfiable (cnf @ map (\<lambda>nm. [if Some nm \<in> selected then var_of st2 nm
                                         else - var_of st2 nm]) (map fst (features st))) \<and>
      (isValid res \<longrightarrow> messages res = []) \<and>
      (\<not> isValid res \<longrightarrow>
         (\<forall>f \<in> set (subfeatures r).
            mandatory f \<and> parent f \<in> selected \<and> Some (name f) \<notin> selected \<longrightarrow>
            ''Missing mandatory feature: '' @ name f \<in> set (messages res))) \<and>
      (\<forall>a \<in> set (children r).
         reg_ok st \<and> mandatory a \<and> parent a = Some (name r)
         \<and> name r \<in> fst ` set (features st) \<and> name a \<in> fst ` set (features st)
         \<and> Some (name r) \<in> selected \<and> Some (name a) \<notin> selected \<longrightarrow>
         \<not> isValid res \<and> ''Missing mandatory feature: '' @ name a \<in> set (messages res))"
proof -
  let ?st1 = "compiled_state st r"
  let ?cnf = "compiled_clauses (var_of ?st1) r (constraints st)"
  let ?names = "map fst (features st)"
  let ?st2 = "touch ?st1 ?names"
  let ?V = "var_of ?st2"
  let ?clauses = "compiled_clauses ?V r (constraints st) @ selection_clauses ?V selected ?names"
  let ?res = "if solve ?clauses \<noteq> None then \<lparr>isValid = True, messages = []\<rparr>
              else \<lparr>isValid = False, messages = violation_list r selected\<rparr>"
  have g: "generate_rules_and_cnf st = Inr (?st1, ?cnf)" using assms(2) by (rule generate_eq)
  have v: "validate_selection solve st selected = Inr (?st2, ?res)"
    using assms(2) by (rule validate_eq)
  have c2: "compiled_clauses ?V r (constraints st) = ?cnf"
    using compiled_names_registered [of r st] by (rule compiled_clauses_touch)
  have valid: "isValid ?res = satisfiable ?clauses"
    using oracle_ok_iff [OF assms(1), of ?clauses] by simp
  have P1: "isValid ?res = satisfiable (?cnf @ map (\<lambda>nm. [if Some nm \<in> selected then ?V nm
                                         else - ?V nm]) ?names)"
    using valid by (simp add: c2 selection_clauses_def)
  have P2: "isValid ?res \<longrightarrow> messages ?res = []" by simp
  have miss: "\<And>f. f \<in> set (subfeatures r) \<Longrightarrow> mandatory f \<Longrightarrow> parent f \<in> selected \<Longrightarrow>
             Some (name f) \<notin> selected \<Longrightarrow>
             ''Missing mandatory feature: '' @ name f \<in> set (violation_list r selected)"
  proof -
    fix f assume "f \<in> set (subfeatures r)" "mandatory f" "parent f \<in> selected"
      "Some (name f) \<notin> selected"
    then have "missing_msg f \<in> set (check_feature selected r [])"
      by (rule check_feature_missing)
    then show "''Missing mandatory feature: '' @ name f \<in> set (violation_list r selected)"
      by (simp add: violation_list_def missing_msg_def Let_def)
  qed
  have P3: "\<not> isValid ?res \<longrightarrow>
         (\<forall>f \<in> set (subfeatures r).
            mandatory f \<and> parent f \<in> selected \<and> Some (name f) \<notin> selected \<longrightarrow>
            ''Missing mandatory feature: '' @ name f \<in> set (messages ?res))"
    using miss by simp
  have P4: "\<forall>a \<in> set (children r).
         reg_ok st \<and> mandatory a \<and> parent a = Some (name r)
         \<and> name r \<in> fst ` set (features st) \<and> name a \<in> fst ` set (features st)
         \<and> Some (name r) \<in> selected \<and> Some (name a) \<notin> selected \<longrightarrow>
         \<not> isValid ?res \<and> ''Missing mandatory feature: '' @ name a \<in> set (messages ?res)"
  proof (intro ballI impI)
    fix a assume a: "a \<in> set (children r)"
      and h: "reg_ok st \<and> mandatory a \<and> parent a = Some (name r)
         \<and> name r \<in> fst ` set (features st) \<and> name a \<in> fst ` set (features st)
         \<and> Some (name r) \<in> selected \<and> Some (name a) \<notin> selected"
    have ok2: "reg_ok ?st2" using h reg_ok_compiled_state reg_ok_touch by blast
    have pr: "0 < ?V (name r)" and pa: "0 < ?V (name a)" using ok2 by (rule var_of_pos)+
    have sub: "a \<in> set (subfeatures r)" using a by (rule subfeatures_child)
    have own: "set (own_clauses ?V a) \<subseteq> set ?clauses"
      using fclauses_own [OF sub, of ?V] fclauses_sub_compiled [of ?V r "constraints st"] by auto
    have ur: "[?V (name r)] \<in> set ?clauses"
      using h selection_clauses_mem [of "name r" ?names selected ?V] by simp
    have ua: "[- ?V (name a)] \<in> set ?clauses"
      using h selection_clauses_mem [of "name a" ?names selected ?V] by simp
    have unsat: "\<not> satisfiable ?clauses"
    proof (cases "truthy (parent a)")
      case False
      then have "[?V (name a)] \<in> set (own_clauses ?V a)"
        by (simp add: own_clauses_def root_clauses_def)
      then have "[?V (name a)] \<in> set ?clauses" using own by blast
      then show ?thesis using ua pa by (rule unsat_by_unit)
    next
      case True
      then have "[- ?V (name r), ?V (name a)] \<in> set (own_clauses ?V a)"
        using h by (simp add: own_clauses_def pc_clauses_def)
      then have e: "[- ?V (name r), ?V (name a)] \<in> set ?clauses" using own by blast
      show ?thesis
      proof
        assume "satisfiable ?clauses"
        then obtain al where al: "satisfies al ?clauses" by (auto simp: satisfiable_def)
        have "al (?V (name r))" using satisfiesD [OF al ur] pr by (simp add: lit_true_pos)
        moreover have "\<not> al (?V (name a))"
          using satisfiesD [OF al ua] pa by (simp add: lit_true_neg)
        moreover have "\<not> al (?V (name r)) \<or> al (?V (name a))"
          using satisfiesD [OF al e] pr pa by (auto simp: lit_true_pos lit_true_neg)
        ultimately show False by blast
      qed
    qed
    then have inv: "\<not> isValid ?res" using valid by simp
    moreover have "''Missing mandatory feature: '' @ name a \<in> set (messages ?res)"
      using inv P3 sub h by simp
    ultimately show "\<not> isValid ?res \<and> ''Missing mandatory feature: '' @ name a \<in> set (messages ?res)"
      by simp
  qed
  show ?thesis using g v P1 P2 P3 P4 by blast
qed

theorem validate_selection_witness:
  "oracle_ok brute_solve \<and> root example_model = Some example_tree
   \<and> (\<exists>st2 res. validate_selection brute_solve example_model {Some ''root''} = Inr (st2, res)
         \<and> \<not> isValid res \<and> ''Missing mandatory feature: A'' \<in> set (messages res))"
proof -
  let ?a = "Feature ''A'' True (Some ''root'')
          [Feature ''B'' False (Some ''A'') [] None, Feature ''C'' False (Some ''A'') [] None]
          (Some ''XOR'')"
  have a: "?a \<in> set (children example_tree)" by (simp add: example_tree_def)
  obtain st1 cnf st2 res where
    v: "validate_selection brute_solve example_model {Some ''root''} = Inr (st2, res)"
    and p: "\<forall>a \<in> set (children example_tree).
         reg_ok example_model \<and> mandatory a \<and> parent a = Some (name example_tree)
         \<and> name example_tree \<in> fst ` set (features example_model)
         \<and> name a \<in> fst ` set (features example_model)
         \<and> Some (name example_tree) \<in> {Some ''root''} \<and> Some (name a) \<notin> {Some ''root''} \<longrightarrow>
         \<not> isValid res \<and> ''Missing mandatory feature: '' @ name a \<in> set (messages res)"
    using validate_selection_spec [OF oracle_ok_brute_solve root_example_model,
            of "{Some ''root''}"]
    by blast
  have "\<not> isValid res \<and> ''Missing mandatory feature: '' @ name ?a \<in> set (messages res)"
    using bspec [OF p a] reg_ok_example_model
    by (simp add: keys_example_model name_example_tree)
  then show ?thesis
    using v oracle_ok_brute_solve root_example_model by simp
qed

section \<open>Mandatory features\<close>

text \<open>
  C1 says that every mandatory feature with a parent gets the two clauses of the
  biconditional. \<open>process_feature\<close> tests the truth value of \<open>feature["parent"]\<close>, so a
  feature whose parent is named by the empty string is compiled as a root. The document
  below has a root \<open>R\<close>, an optional child with the empty name and under it the mandatory
  feature \<open>F\<close>: the compiler emits the unit clause of \<open>F\<close> and no clause between \<open>F\<close> and its
  parent, and \<open>F\<close> true with its parent false satisfies the clause set. For a parent with a
  non-empty name the two clauses are emitted and the equivalence is entailed
  (\<open>mandatory_edge_clauses\<close>).
\<close>

theorem mandatory_child_of_unnamed_parent:
  "(case parse_xml init unnamed_parent_doc of
      Inr st \<Rightarrow>
        root st = Some (Feature ''R'' False None
                          [Feature '''' False (Some ''R'')
                             [Feature ''F'' True (Some '''') [] None] None] None)
        \<and> (case generate_rules_and_cnf st of
              Inr (st1, cnf) \<Rightarrow>
                cnf = [[1], [- 2, 1], [3]] \<and> var_of st1 ''R'' = 1 \<and> var_of st1 '''' = 2
                \<and> var_of st1 ''F'' = 3
                \<and> brute_solve (cnf @ [[var_of st1 ''F''], [- var_of st1 '''']]) = Some [1, - 2, 3]
            | Inl e \<Rightarrow> False)
    | Inl e \<Rightarrow> False)"
  by code_simp

section \<open>Cross-tree constraints\<close>

text \<open>
  C9: a constraint adds a clause exactly when its type is \<open>requires\<close> and its text
  contains \<open>filter\<close>, and then it is the one clause \<open>[-ByLocation, +Location]\<close>. The
  clause set \<open>generate_rules_and_cnf\<close> returns is the clause set of the same model without
  any constraint, followed by that clause once for every such constraint and by nothing
  for the others; so the clause of a matching constraint is in the returned set, and a
  constraint that does not match, put anywhere in the list, leaves the returned clauses
  and the registry as they are without it. The type is \<open>requires\<close> when the text
  contains \<open>required to\<close> and \<open>excludes\<close> otherwise.
\<close>

theorem cross_tree_constraint_clauses:
  "constraint_step c (st, cnf) =
     (if ctype c = ''requires'' \<and> contains (englishStatement c) ''filter''
      then (fst (constraint_step c (st, cnf)),
            cnf @ [[- var_of (fst (constraint_step c (st, cnf))) ''ByLocation'',
                    var_of (fst (constraint_step c (st, cnf))) ''Location'']])
      else (st, cnf))
   \<and> (\<not> (ctype c = ''requires'' \<and> contains (englishStatement c) ''filter'')
        \<and> root st = Some r \<longrightarrow>
        (\<exists>s cnf'. generate_rules_and_cnf (st\<lparr>constraints := cs1 @ cs2\<rparr>) = Inr (s, cnf')
           \<and> generate_rules_and_cnf (st\<lparr>constraints := cs1 @ c # cs2\<rparr>)
               = Inr (s\<lparr>constraints := cs1 @ c # cs2\<rparr>, cnf')))
   \<and> parse_constraints st [Element t a x [Element ''englishStatement'' a' (Some txt) ks]]
       = Inr (st\<lparr>constraints := constraints st @
               [\<lparr>englishStatement = txt,
                 ctype = (if contains txt ''required to'' then ''requires'' else ''excludes'')\<rparr>]\<rparr>)
   \<and> (root st = Some r \<longrightarrow>
        (\<exists>st0 cnf0 st1 cnf1.
            generate_rules_and_cnf (st\<lparr>constraints := []\<rparr>) = Inr (st0, cnf0)
          \<and> generate_rules_and_cnf st = Inr (st1, cnf1)
          \<and> cnf1 = cnf0 @ map (\<lambda>k. [- var_of st1 ''ByLocation'', var_of st1 ''Location''])
                              (filter (\<lambda>k. ctype k = ''requires''
                                            \<and> contains (englishStatement k) ''filter'')
                                      (constraints st))
          \<and> (c \<in> set (constraints st) \<and> ctype c = ''requires''
               \<and> contains (englishStatement c) ''filter'' \<longrightarrow>
               [- var_of st1 ''ByLocation'', var_of st1 ''Location''] \<in> set cnf1)))"
proof (intro conjI impI)
  show "constraint_step c (st, cnf) =
     (if ctype c = ''requires'' \<and> contains (englishStatement c) ''filter''
      then (fst (constraint_step c (st, cnf)),
            cnf @ [[- var_of (fst (constraint_step c (st, cnf))) ''ByLocation'',
                    var_of (fst (constraint_step c (st, cnf))) ''Location'']])
      else (st, cnf))"
    using constraint_step_eq [of c st cnf] by (simp add: matches_filter_def)
next
  assume "\<not> (ctype c = ''requires'' \<and> contains (englishStatement c) ''filter'')
          \<and> root st = Some r"
  then have "\<not> matches_filter c" "root st = Some r" by (simp_all add: matches_filter_def)
  then show "\<exists>s cnf'. generate_rules_and_cnf (st\<lparr>constraints := cs1 @ cs2\<rparr>) = Inr (s, cnf')
           \<and> generate_rules_and_cnf (st\<lparr>constraints := cs1 @ c # cs2\<rparr>)
               = Inr (s\<lparr>constraints := cs1 @ c # cs2\<rparr>, cnf')"
    by (rule generate_skip)
next
  show "parse_constraints st [Element t a x [Element ''englishStatement'' a' (Some txt) ks]]
       = Inr (st\<lparr>constraints := constraints st @
               [\<lparr>englishStatement = txt,
                 ctype = (if contains txt ''required to'' then ''requires'' else ''excludes'')\<rparr>]\<rparr>)"
    by simp
next
  assume r: "root st = Some r"
  have mf: "matches_filter = (\<lambda>k. ctype k = ''requires'' \<and> contains (englishStatement k) ''filter'')"
    by (rule ext) (simp add: matches_filter_def)
  obtain st0 cnf0 st1 cnf1 where
    g0: "generate_rules_and_cnf (st\<lparr>constraints := []\<rparr>) = Inr (st0, cnf0)"
    and g1: "generate_rules_and_cnf st = Inr (st1, cnf1)"
    and eq: "cnf1 = cnf0 @ map (\<lambda>k. [- var_of st1 ''ByLocation'', var_of st1 ''Location''])
                             (filter matches_filter (constraints st))"
    using generate_tree_then_constraints [OF r] by blast
  have mem: "c \<in> set (constraints st) \<and> ctype c = ''requires''
               \<and> contains (englishStatement c) ''filter'' \<longrightarrow>
               [- var_of st1 ''ByLocation'', var_of st1 ''Location''] \<in> set cnf1"
  proof
    assume "c \<in> set (constraints st) \<and> ctype c = ''requires''
               \<and> contains (englishStatement c) ''filter''"
    then have "c \<in> set (filter matches_filter (constraints st))"
      by (simp add: matches_filter_def)
    then show "[- var_of st1 ''ByLocation'', var_of st1 ''Location''] \<in> set cnf1"
      unfolding eq by (auto simp: image_iff)
  qed
  show "\<exists>st0 cnf0 st1 cnf1.
            generate_rules_and_cnf (st\<lparr>constraints := []\<rparr>) = Inr (st0, cnf0)
          \<and> generate_rules_and_cnf st = Inr (st1, cnf1)
          \<and> cnf1 = cnf0 @ map (\<lambda>k. [- var_of st1 ''ByLocation'', var_of st1 ''Location''])
                              (filter (\<lambda>k. ctype k = ''requires''
                                            \<and> contains (englishStatement k) ''filter'')
                                      (constraints st))
          \<and> (c \<in> set (constraints st) \<and> ctype c = ''requires''
               \<and> contains (englishStatement c) ''filter'' \<longrightarrow>
               [- var_of st1 ''ByLocation'', var_of st1 ''Location''] \<in> set cnf1)"
  proof (rule exI [of _ st0], rule exI [of _ cnf0], rule exI [of _ st1], rule exI [of _ cnf1],
         intro conjI)
    show "cnf1 = cnf0 @ map (\<lambda>k. [- var_of st1 ''ByLocation'', var_of st1 ''Location''])
                              (filter (\<lambda>k. ctype k = ''requires''
                                            \<and> contains (englishStatement k) ''filter'')
                                      (constraints st))"
      using eq unfolding mf .
  qed (rule g0 g1 mem)+
qed

theorem cross_tree_constraint_witness:
  "root example_model = Some example_tree
   \<and> filter_constraint \<in> set [filter_constraint, other_constraint]
   \<and> ctype filter_constraint = ''requires''
   \<and> contains (englishStatement filter_constraint) ''filter''
   \<and> \<not> (ctype other_constraint = ''requires''
          \<and> contains (englishStatement other_constraint) ''filter'')
   \<and> (\<exists>st0 cnf0 st1 cnf1.
          generate_rules_and_cnf (example_model\<lparr>constraints := []\<rparr>) = Inr (st0, cnf0)
        \<and> generate_rules_and_cnf
             (example_model\<lparr>constraints := [filter_constraint, other_constraint]\<rparr>)
            = Inr (st1, cnf1)
        \<and> cnf1 = cnf0 @ [[- var_of st1 ''ByLocation'', var_of st1 ''Location'']]
        \<and> [- var_of st1 ''ByLocation'', var_of st1 ''Location''] \<in> set cnf1)
   \<and> (\<exists>s cnf'.
          generate_rules_and_cnf (example_model\<lparr>constraints := [filter_constraint]\<rparr>)
            = Inr (s, cnf')
        \<and> generate_rules_and_cnf
             (example_model\<lparr>constraints := [filter_constraint, other_constraint]\<rparr>)
            = Inr (s\<lparr>constraints := [filter_constraint, other_constraint]\<rparr>, cnf'))"
proof -
  let ?M = "example_model\<lparr>constraints := [filter_constraint, other_constraint]\<rparr>"
  have r: "root ?M = Some example_tree" using root_example_model by simp
  have fm: "ctype filter_constraint = ''requires''"
    "contains (englishStatement filter_constraint) ''filter''"
    using filter_constraint_matches by simp_all
  note om = other_constraint_no_match
  have flt: "filter (\<lambda>k. ctype k = ''requires'' \<and> contains (englishStatement k) ''filter'')
               [filter_constraint, other_constraint] = [filter_constraint]"
    using fm om by simp
  have A: "\<exists>st0 cnf0 st1 cnf1.
          generate_rules_and_cnf (example_model\<lparr>constraints := []\<rparr>) = Inr (st0, cnf0)
        \<and> generate_rules_and_cnf ?M = Inr (st1, cnf1)
        \<and> cnf1 = cnf0 @ [[- var_of st1 ''ByLocation'', var_of st1 ''Location'']]
        \<and> [- var_of st1 ''ByLocation'', var_of st1 ''Location''] \<in> set cnf1"
    using cross_tree_constraint_clauses
            [where c = filter_constraint and st = ?M and r = example_tree,
             THEN conjunct2, THEN conjunct2, THEN conjunct2, rule_format, OF r]
          fm om
    by (simp add: flt)
  have B: "\<exists>s cnf'.
          generate_rules_and_cnf (example_model\<lparr>constraints := [filter_constraint]\<rparr>)
            = Inr (s, cnf')
        \<and> generate_rules_and_cnf ?M
            = Inr (s\<lparr>constraints := [filter_constraint, other_constraint]\<rparr>, cnf')"
    using cross_tree_constraint_clauses
            [where c = other_constraint and st = example_model and r = example_tree
               and ?cs1.0 = "[filter_constraint]" and ?cs2.0 = "[]",
             THEN conjunct2, THEN conjunct1, rule_format]
          om root_example_model
    by simp
  show ?thesis using A B fm om root_example_model by simp
qed

section \<open>XOR groups\<close>




section \<open>Parse failures\<close>




end
